theory Spec2Isabelle
  imports Main "HOL-Library.Sublist"
begin

section \<open>Text primitives of the two analysis scripts\<close>

text \<open>
  Both scripts (\<^verbatim>\<open>check-disclosure.py\<close> and \<^verbatim>\<open>analyze-complexity.py\<close>) work on
  Python \<^verbatim>\<open>str\<close> values with \<^verbatim>\<open>re\<close>, \<^verbatim>\<open>in\<close>, \<^verbatim>\<open>split\<close>, \<^verbatim>\<open>strip\<close> and
  \<^verbatim>\<open>count\<close>. A \<^typ>\<open>char\<close> stands for one code point below 256; the character
  classes below are Python's \<^verbatim>\<open>\s\<close>, \<^verbatim>\<open>\d\<close> and \<^verbatim>\<open>\w\<close> for \<^verbatim>\<open>str\<close> patterns on that range
  (\<^verbatim>\<open>str.isspace\<close>, decimal digits, \<^verbatim>\<open>str.isalnum\<close> or underscore). Text with code
  points from 256 on is outside the model.
\<close>

definition is_space :: "char \<Rightarrow> bool" where
  "is_space c = (let n = (of_char c :: nat) in
     (9 \<le> n \<and> n \<le> 13) \<or> (28 \<le> n \<and> n \<le> 32) \<or> n = 133 \<or> n = 160)"

definition is_digit :: "char \<Rightarrow> bool" where
  "is_digit c = (let n = (of_char c :: nat) in 48 \<le> n \<and> n \<le> 57)"

definition is_word :: "char \<Rightarrow> bool" where
  "is_word c = (let n = (of_char c :: nat) in
     (48 \<le> n \<and> n \<le> 57) \<or> (65 \<le> n \<and> n \<le> 90) \<or> n = 95 \<or> (97 \<le> n \<and> n \<le> 122)
     \<or> n = 170 \<or> n = 178 \<or> n = 179 \<or> n = 181 \<or> n = 185 \<or> n = 186
     \<or> (188 \<le> n \<and> n \<le> 190) \<or> (192 \<le> n \<and> n \<le> 214) \<or> (216 \<le> n \<and> n \<le> 246)
     \<or> 248 \<le> n)"

text \<open>\<^verbatim>\<open>sub in s\<close> on strings: \<open>sub\<close> occurs in \<open>s\<close> as a contiguous piece.\<close>

fun str_in :: "string \<Rightarrow> string \<Rightarrow> bool" where
  "str_in sub [] = (sub = [])"
| "str_in sub (c # cs) = (prefix sub (c # cs) \<or> str_in sub cs)"

text \<open>\<^verbatim>\<open>s.split('\n')\<close>: never empty, a trailing newline gives a last empty line.\<close>

fun split_lines :: "string \<Rightarrow> string list" where
  "split_lines [] = [[]]"
| "split_lines (c # cs) =
     (if c = CHR ''\<newline>'' then [] # split_lines cs
      else (case split_lines cs of [] \<Rightarrow> [[c]] | l # ls \<Rightarrow> (c # l) # ls))"


text \<open>\<^verbatim>\<open>s.strip()\<close> and \<^verbatim>\<open>s.count(c)\<close> for a one-character \<open>c\<close>.\<close>

definition strip :: "string \<Rightarrow> string" where
  "strip s = rev (dropWhile is_space (rev (dropWhile is_space s)))"


text \<open>
  The exceptions of the interpreter that the scripts do not catch. An uncaught exception
  ends the process with a traceback and exit code 1.
\<close>

datatype py_error = ValueError

text \<open>The value of a string of decimal digits.\<close>

definition digit_val :: "char \<Rightarrow> int" where
  "digit_val c = int (of_char c) - 48"

definition int_of_digits :: "string \<Rightarrow> int" where
  "int_of_digits ds = foldl (\<lambda>acc c. 10 * acc + digit_val c) 0 ds"

text \<open>
  \<^verbatim>\<open>int(d)\<close> on a string of decimal digits. The interpreter refuses a string of more digits
  than \<^verbatim>\<open>sys.get_int_max_str_digits()\<close>, 4300 unless configured otherwise, leading zeros
  counted, with a \<^verbatim>\<open>ValueError\<close>.
\<close>

definition int_max_str_digits :: nat where
  "int_max_str_digits = 4300"

definition py_int :: "string \<Rightarrow> py_error + int" where
  "py_int ds = (if int_max_str_digits < length ds then Inl ValueError else Inr (int_of_digits ds))"

text \<open>\<^verbatim>\<open>max(xs)\<close>: a \<^verbatim>\<open>ValueError\<close> on an empty sequence.\<close>

definition py_max :: "int list \<Rightarrow> py_error + int" where
  "py_max xs = (case xs of [] \<Rightarrow> Inl ValueError | x # rest \<Rightarrow> Inr (fold max rest x))"

text \<open>The results of a sequence of steps, or the first exception raised.\<close>

fun all_results :: "('e + 'a) list \<Rightarrow> 'e + 'a list" where
  "all_results [] = Inr []"
| "all_results (x # xs) =
     (case x of
        Inl e \<Rightarrow> Inl e
      | Inr v \<Rightarrow> (case all_results xs of Inl e \<Rightarrow> Inl e | Inr vs \<Rightarrow> Inr (v # vs)))"

text \<open>\<^verbatim>\<open>str(n)\<close> for \<open>n \<ge> 0\<close>.\<close>

definition digit_chr :: "nat \<Rightarrow> char" where
  "digit_chr d = char_of (48 + d)"

function str_nat :: "nat \<Rightarrow> string" where
  "str_nat n = (if n < 10 then [digit_chr n] else str_nat (n div 10) @ [digit_chr (n mod 10)])"
  by pat_completeness auto
termination
  by (relation "measure id") auto

declare str_nat.simps [simp del]

subsection \<open>The fragment of \<^verbatim>\<open>re\<close> the scripts use\<close>

text \<open>
  Character classes: \<^verbatim>\<open>\w\<close>, \<^verbatim>\<open>\s\<close>, \<^verbatim>\<open>\d\<close>, \<^verbatim>\<open>.\<close> (anything but a newline), a set
  \<^verbatim>\<open>[abc]\<close>, a negated set \<^verbatim>\<open>[^abc]\<close> and a range \<^verbatim>\<open>[a-z]\<close>.
  Patterns: a literal text, one character of a class, a greedy \<^verbatim>\<open>*\<close> or \<^verbatim>\<open>+\<close> on a class
  (the scripts repeat nothing else), a greedy \<^verbatim>\<open>?\<close>, concatenation, \<^verbatim>\<open>\b\<close> and a numbered
  capturing group.
\<close>

datatype cls = CWord | CSpace | CDigit | CAny | COneOf string | CNoneOf string | CRange char char

fun cls_ok :: "cls \<Rightarrow> char \<Rightarrow> bool" where
  "cls_ok CWord c = is_word c"
| "cls_ok CSpace c = is_space c"
| "cls_ok CDigit c = is_digit c"
| "cls_ok CAny c = (c \<noteq> CHR ''\<newline>'')"
| "cls_ok (COneOf cs) c = (c \<in> set cs)"
| "cls_ok (CNoneOf cs) c = (c \<notin> set cs)"
| "cls_ok (CRange lo hi) c = ((of_char lo :: nat) \<le> of_char c \<and> (of_char c :: nat) \<le> of_char hi)"

datatype rx = RLit string | RChr cls | RStar cls | RPlus cls | ROpt rx | RSeq rx rx | RWordB
  | RGrp nat rx

text \<open>
  A matcher state: the character just before the current position (none at the start of
  the text), the text still to read, and the groups captured so far (newest first).
\<close>

type_synonym mstate = "char option \<times> string \<times> (nat \<times> string) list"

text \<open>
  Where a greedy repetition of a class can stop, longest first: the order in which the
  backtracking matcher tries them.
\<close>

fun star_ends :: "cls \<Rightarrow> char option \<Rightarrow> string \<Rightarrow> (char option \<times> string) list" where
  "star_ends c p [] = [(p, [])]"
| "star_ends c p (x # xs) =
     (if cls_ok c x then star_ends c (Some x) xs @ [(p, x # xs)] else [(p, x # xs)])"

text \<open>\<^verbatim>\<open>\b\<close>: exactly one of the characters before and after the position is a word character.\<close>

definition at_boundary :: "char option \<Rightarrow> string \<Rightarrow> bool" where
  "at_boundary p s =
     ((case p of None \<Rightarrow> False | Some c \<Rightarrow> is_word c) \<noteq>
      (case s of [] \<Rightarrow> False | c # _ \<Rightarrow> is_word c))"

text \<open>
  All the ways a pattern matches at the current position, in the matcher's order of
  preference; the first is the match \<^verbatim>\<open>re\<close> reports.
\<close>

fun ends :: "rx \<Rightarrow> mstate \<Rightarrow> mstate list" where
  "ends (RLit l) (p, s, g) =
     (if prefix l s then [(if l = [] then p else Some (last l), drop (length l) s, g)] else [])"
| "ends (RChr c) (p, s, g) =
     (case s of [] \<Rightarrow> [] | x # xs \<Rightarrow> if cls_ok c x then [(Some x, xs, g)] else [])"
| "ends (RStar c) (p, s, g) = map (\<lambda>(p', s'). (p', s', g)) (star_ends c p s)"
| "ends (RPlus c) (p, s, g) =
     (case s of [] \<Rightarrow> []
      | x # xs \<Rightarrow>
          if cls_ok c x then map (\<lambda>(p', s'). (p', s', g)) (star_ends c (Some x) xs) else [])"
| "ends (ROpt r) st = ends r st @ [st]"
| "ends (RSeq a b) st = concat (map (ends b) (ends a st))"
| "ends RWordB (p, s, g) = (if at_boundary p s then [(p, s, g)] else [])"
| "ends (RGrp n r) (p, s, g) =
     map (\<lambda>(p', s', g'). (p', s', (n, take (length s - length s') s) # g')) (ends r (p, s, g))"

definition cat :: "rx list \<Rightarrow> rx" where
  "cat rs = foldr RSeq rs (RLit [])"

definition match_at :: "rx \<Rightarrow> char option \<Rightarrow> string \<Rightarrow> mstate option" where
  "match_at r p s = (case ends r (p, s, []) of [] \<Rightarrow> None | m # _ \<Rightarrow> Some m)"

text \<open>\<^verbatim>\<open>pattern.search(s)\<close>: the match at the leftmost position that has one.\<close>

fun search_from :: "rx \<Rightarrow> char option \<Rightarrow> string \<Rightarrow> mstate option" where
  "search_from r p [] = match_at r p []"
| "search_from r p (x # xs) =
     (case match_at r p (x # xs) of Some m \<Rightarrow> Some m | None \<Rightarrow> search_from r (Some x) xs)"

definition search :: "rx \<Rightarrow> string \<Rightarrow> mstate option" where
  "search r s = search_from r None s"

definition found :: "rx \<Rightarrow> string \<Rightarrow> bool" where
  "found r s = (search r s \<noteq> None)"

text \<open>\<^verbatim>\<open>match.group(n)\<close> and \<^verbatim>\<open>match.end()\<close> (for a match in the text \<open>s\<close>).\<close>

definition group :: "mstate \<Rightarrow> nat \<Rightarrow> string" where
  "group m n = (case map_of (snd (snd m)) n of Some t \<Rightarrow> t | None \<Rightarrow> [])"


text \<open>
  \<^verbatim>\<open>re.findall\<close> / \<^verbatim>\<open>finditer\<close>: the matches from left to right, each search starting where
  the previous match ended. Every pattern the scripts pass to \<^verbatim>\<open>findall\<close> consumes at least
  one character; after an empty match the scan moves on by one character.
\<close>

function findall_from :: "rx \<Rightarrow> char option \<Rightarrow> string \<Rightarrow> mstate list" where
  "findall_from r p s =
     (case match_at r p s of
        Some (p', s', g) \<Rightarrow>
          if length s' < length s then (p', s', g) # findall_from r p' s'
          else (p', s', g) # (case s of [] \<Rightarrow> [] | x # xs \<Rightarrow> findall_from r (Some x) xs)
      | None \<Rightarrow> (case s of [] \<Rightarrow> [] | x # xs \<Rightarrow> findall_from r (Some x) xs))"
  by pat_completeness auto
termination
  by (relation "measure (\<lambda>(r, p, s). length s)") auto

declare findall_from.simps [simp del]

definition findall :: "rx \<Rightarrow> string \<Rightarrow> mstate list" where
  "findall r s = findall_from r None s"

subsection \<open>The texts a pattern matches\<close>

text \<open>
  The set of texts a pattern matches, for stating what a search finds. A word boundary
  depends on the characters around the match, so the set describes a pattern exactly only
  when the pattern has no \<^verbatim>\<open>\b\<close>.
\<close>

fun lang :: "rx \<Rightarrow> string set" where
  "lang (RLit l) = {l}"
| "lang (RChr c) = {[x] | x. cls_ok c x}"
| "lang (RStar c) = {w. list_all (cls_ok c) w}"
| "lang (RPlus c) = {w. w \<noteq> [] \<and> list_all (cls_ok c) w}"
| "lang (ROpt r) = insert [] (lang r)"
| "lang (RSeq a b) = {u @ v | u v. u \<in> lang a \<and> v \<in> lang b}"
| "lang RWordB = {[]}"
| "lang (RGrp n r) = lang r"

fun no_wordb :: "rx \<Rightarrow> bool" where
  "no_wordb RWordB = False"
| "no_wordb (ROpt r) = no_wordb r"
| "no_wordb (RSeq a b) = (no_wordb a \<and> no_wordb b)"
| "no_wordb (RGrp n r) = no_wordb r"
| "no_wordb r = True"

text \<open>The texts left to read after the matches of a list.\<close>

definition rests :: "mstate list \<Rightarrow> string set" where
  "rests ms = (\<lambda>m. fst (snd m)) ` set ms"

text \<open>The texts group \<open>n\<close> of a pattern can capture.\<close>

fun group_texts :: "rx \<Rightarrow> nat \<Rightarrow> string set" where
  "group_texts (RGrp k r) n = (if k = n then lang r else {}) \<union> group_texts r n"
| "group_texts (ROpt r) n = group_texts r n"
| "group_texts (RSeq a b) n = group_texts a n \<union> group_texts b n"
| "group_texts r n = {}"

section \<open>check-disclosure.py\<close>

record DisclosureIssue =
  line :: nat
  description :: string
  severity :: string

text \<open>\<^verbatim>\<open>witness\s+(\w+)\s*\([^)]*\)\s*:\s*(\w+(?:<[^>]+>)?)\s*;\<close>\<close>

definition witness_pattern :: rx where
  "witness_pattern = cat [RLit ''witness'', RPlus CSpace, RGrp 1 (RPlus CWord), RStar CSpace,
     RLit ''('', RStar (CNoneOf '')''), RLit '')'', RStar CSpace, RLit '':'', RStar CSpace,
     RGrp 2 (cat [RPlus CWord, ROpt (cat [RLit ''<'', RPlus (CNoneOf ''>''), RLit ''>''])]),
     RStar CSpace, RLit '';'']"

definition find_witness_declarations :: "string \<Rightarrow> (string \<times> nat \<times> string) list" where
  "find_witness_declarations content =
     List.map_filter
       (\<lambda>(i, l). case search witness_pattern l of
                   None \<Rightarrow> None
                 | Some m \<Rightarrow> Some (group m 1, i, group m 2))
       (enumerate 1 (split_lines content))"

text \<open>\<^verbatim>\<open>Uint<[1-9]>\<close>, \<^verbatim>\<open>Uint<1[0-9]>\<close>, \<^verbatim>\<open>Boolean\<close>, \<^verbatim>\<open>Enum<\<close>, each tried with \<^verbatim>\<open>re.search\<close>.\<close>

definition low_entropy_patterns :: "rx list" where
  "low_entropy_patterns =
     [cat [RLit ''Uint<'', RChr (CRange CHR ''1'' CHR ''9''), RLit ''>''],
      cat [RLit ''Uint<1'', RChr (CRange CHR ''0'' CHR ''9''), RLit ''>''],
      RLit ''Boolean'',
      RLit ''Enum<'']"

definition is_low_entropy_type :: "string \<Rightarrow> bool" where
  "is_low_entropy_type type_str = list_ex (\<lambda>pattern. found pattern type_str) low_entropy_patterns"

text \<open>
  The classification as the specification words it, to compare with the one above: low when
  the signature is a bit-width integer type of declared width 1 to 19, the boolean type, or
  a tagged-enumeration type.
\<close>

definition spec_classify_low :: "string \<Rightarrow> bool" where
  "spec_classify_low s =
     (list_ex (\<lambda>w. s = ''Uint<'' @ str_nat w @ ''>'') [1..<20] \<or> s = ''Boolean''
      \<or> prefix ''Enum<'' s)"

text \<open>\<^verbatim>\<open>\b{witness_name}\s*\(\s*\)\<close>; a witness name is a run of word characters.\<close>

definition usage_pattern :: "string \<Rightarrow> rx" where
  "usage_pattern witness_name =
     cat [RWordB, RLit witness_name, RStar CSpace, RLit ''('', RStar CSpace, RLit '')'']"

definition find_witness_usages :: "string \<Rightarrow> string \<Rightarrow> (nat \<times> string) list" where
  "find_witness_usages content witness_name =
     map (\<lambda>(i, l). (i, strip l))
       (filter (\<lambda>(i, l). found (usage_pattern witness_name) l)
          (enumerate 1 (split_lines content)))"

definition apos :: string where
  "apos = [CHR 0x27]"

definition r1_issue :: "string \<Rightarrow> string \<Rightarrow> nat \<Rightarrow> DisclosureIssue" where
  "r1_issue witness_name type_str line_num =
     \<lparr>line = line_num,
      description = ''Low-entropy witness '' @ apos @ witness_name @ apos @ '' ('' @ type_str @
        '') used in persistentHash() - vulnerable to brute-force (AV-03/AV-06)'',
      severity = ''critical''\<rparr>"

definition r2_issue :: "string \<Rightarrow> nat \<Rightarrow> DisclosureIssue" where
  "r2_issue witness_name line_num =
     \<lparr>line = line_num,
      description = ''Witness '' @ apos @ witness_name @ apos @
        '' may flow to public output without disclose()'',
      severity = ''high''\<rparr>"

definition r3_issue :: "string \<Rightarrow> string \<Rightarrow> nat \<Rightarrow> DisclosureIssue" where
  "r3_issue witness_name op line_num =
     \<lparr>line = line_num,
      description = ''Witness '' @ apos @ witness_name @ apos @ '' used in ledger '' @ op @
        ''() - verify disclosure intent'',
      severity = ''medium''\<rparr>"

definition r4_issue :: "nat \<Rightarrow> DisclosureIssue" where
  "r4_issue i =
     \<lparr>line = i,
      description = ''Control flow depends on witness value - potential timing leak (AV-01)'',
      severity = ''high''\<rparr>"

definition ledger_ops :: "string list" where
  "ledger_ops = [''increment'', ''decrement'', ''write'', ''push'', ''set'', ''insert'']"

text \<open>The body of the loop over the usages of one witness: what one usage line appends.\<close>

definition usage_issues :: "string \<Rightarrow> string \<Rightarrow> nat \<times> string \<Rightarrow> DisclosureIssue list" where
  "usage_issues witness_name type_str u =
     (case u of (line_num, line_content) \<Rightarrow>
        (if str_in ''persistentHash'' line_content \<and> is_low_entropy_type type_str
         then [r1_issue witness_name type_str line_num] else [])
        @ (if str_in ''return'' line_content \<and> \<not> str_in ''disclose'' line_content
              \<and> str_in witness_name line_content
           then [r2_issue witness_name line_num] else [])
        @ concat (map (\<lambda>op.
             if str_in (''.'' @ op @ ''('') line_content
                \<and> str_in witness_name line_content \<and> \<not> str_in ''disclose'' line_content
             then [r3_issue witness_name op line_num] else []) ledger_ops))"

text \<open>\<^verbatim>\<open>if\s+.*\bget_\w+\s*\(\)\<close>\<close>

definition control_flow_pattern :: rx where
  "control_flow_pattern =
     cat [RLit ''if'', RPlus CSpace, RStar CAny, RWordB, RLit ''get_'', RPlus CWord,
          RStar CSpace, RLit ''()'']"

definition control_flow_issues :: "string list \<Rightarrow> DisclosureIssue list" where
  "control_flow_issues lines =
     map (\<lambda>(i, l). r4_issue i)
       (filter (\<lambda>(i, l). found control_flow_pattern l) (enumerate 1 lines))"

definition check_disclosure_violations :: "string \<Rightarrow> string list \<Rightarrow> DisclosureIssue list" where
  "check_disclosure_violations content lines =
     concat (map (\<lambda>(witness_name, decl_line, type_str).
               concat (map (usage_issues witness_name type_str)
                        (find_witness_usages content witness_name)))
            (find_witness_declarations content))
     @ control_flow_issues lines"

subsection \<open>The command line of the disclosure checker\<close>

text \<open>
  What reading the file does: \<^verbatim>\<open>FileNotFoundError\<close>, any other exception, or the text.
  The file system is a parameter of \<open>main\<close>.
\<close>

datatype read_result = FileNotFound | ReadFailed | Content string

datatype icon = RedCircle | OrangeCircle | YellowCircle | WhiteCircle

text \<open>The lines \<open>main\<close> prints, by what they say; colour codes and icons are not spelled out.\<close>

datatype out_line =
    UsageLine
  | FailBanner string
  | ErrorNotCompact
  | ErrorNotFound
  | ErrorOther
  | PassBanner string
  | BlankLine
  | NoIssuesLine
  | ViolationsHeader
  | IssueLine nat icon string
  | SummaryLine nat

record 'l run_result =
  exit_code :: int
  printed :: "'l list"

text \<open>\<^verbatim>\<open>severity_order.get(x.severity, 3)\<close>\<close>

definition severity_order :: "string \<Rightarrow> nat" where
  "severity_order s =
     (if s = ''critical'' then 0 else if s = ''high'' then 1 else if s = ''medium'' then 2 else 3)"

definition severity_icon :: "string \<Rightarrow> icon" where
  "severity_icon s =
     (if s = ''critical'' then RedCircle else if s = ''high'' then OrangeCircle
      else if s = ''medium'' then YellowCircle else WhiteCircle)"

text \<open>\<^verbatim>\<open>issues.sort(key=...)\<close>: Python's sort is stable, as \<^const>\<open>sort_key\<close> is.\<close>

definition sort_issues :: "DisclosureIssue list \<Rightarrow> DisclosureIssue list" where
  "sort_issues issues = sort_key (\<lambda>x. severity_order (severity x)) issues"

text \<open>The issues whose severity has rank \<open>k\<close>, in their original order.\<close>

definition by_rank :: "nat \<Rightarrow> DisclosureIssue list \<Rightarrow> DisclosureIssue list" where
  "by_rank k issues = filter (\<lambda>x. severity_order (severity x) = k) issues"

definition report_issues :: "string \<Rightarrow> DisclosureIssue list \<Rightarrow> out_line run_result" where
  "report_issues filepath issues =
     (if issues = [] then
        \<lparr>exit_code = 0, printed = [PassBanner filepath, BlankLine, NoIssuesLine]\<rparr>
      else
        \<lparr>exit_code = 1,
         printed = [FailBanner filepath, BlankLine, ViolationsHeader]
           @ map (\<lambda>issue. IssueLine (line issue) (severity_icon (severity issue)) (description issue))
               (sort_issues issues)
           @ [BlankLine, SummaryLine (length issues)]\<rparr>)"

definition disclosure_main :: "string list \<Rightarrow> (string \<Rightarrow> read_result) \<Rightarrow> out_line run_result" where
  "disclosure_main argv read_file =
     (if length argv < 2 then \<lparr>exit_code = 2, printed = [UsageLine]\<rparr>
      else
        let filepath = argv ! 1 in
        if \<not> suffix ''.compact'' filepath
        then \<lparr>exit_code = 2, printed = [FailBanner filepath, ErrorNotCompact]\<rparr>
        else
          (case read_file filepath of
             FileNotFound \<Rightarrow> \<lparr>exit_code = 2, printed = [FailBanner filepath, ErrorNotFound]\<rparr>
           | ReadFailed \<Rightarrow> \<lparr>exit_code = 2, printed = [FailBanner filepath, ErrorOther]\<rparr>
           | Content content \<Rightarrow>
               report_issues filepath
                 (check_disclosure_violations content (split_lines content))))"

section \<open>analyze-complexity.py\<close>

text \<open>The operation counts of one circuit body: the dictionary \<^verbatim>\<open>ops\<close>, key by key.\<close>

record OperationCounts =
  hash_operations :: int
  sha256_operations :: int
  merkle_proofs :: int
  merkle_depth :: int
  inequality_comparisons :: int
  equality_comparisons :: int
  loop_iterations :: int
  ec_operations :: int
  collection_accesses :: int

definition CONSTRAINT_COSTS :: "(string \<times> int) list" where
  "CONSTRAINT_COSTS =
     [(''sha256'', 25000), (''persistentHash'', 1000), (''persistentCommit'', 1000),
      (''hash'', 1000), (''ecMul'', 7500),
      (''comparison_inequality'', 254), (''comparison_equality'', 1),
      (''merkle_hash_per_level'', 1000),
      (''map_membership'', 254), (''set_membership'', 254), (''list_access'', 254),
      (''addition'', 0), (''subtraction'', 0), (''multiplication'', 1), (''division'', 1)]"

text \<open>\<^verbatim>\<open>CONSTRAINT_COSTS[key]\<close>; every key the script looks up is in the table.\<close>

definition cost_of :: "string \<Rightarrow> int" where
  "cost_of key = the (map_of CONSTRAINT_COSTS key)"






text \<open>\<^verbatim>\<open>\bNAME\s*\(\<close> for the five named primitives.\<close>

definition call_pattern :: "string \<Rightarrow> rx" where
  "call_pattern f = cat [RWordB, RLit f, RStar CSpace, RLit ''('']"

text \<open>\<^verbatim>\<open>MerkleTree(?:Client)?<(\d+)>\<close>\<close>

definition merkle_pattern :: rx where
  "merkle_pattern =
     cat [RLit ''MerkleTree'', ROpt (RLit ''Client''), RLit ''<'', RGrp 1 (RPlus CDigit), RLit ''>'']"

text \<open>\<^verbatim>\<open>[<>]=?\<close> and \<^verbatim>\<open>==\<close>\<close>

definition inequality_pattern :: rx where
  "inequality_pattern = cat [RChr (COneOf ''<>''), ROpt (RLit ''='')]"

definition equality_pattern :: rx where
  "equality_pattern = RLit ''==''"

text \<open>\<^verbatim>\<open>for\s+\w+\s+in\s+(\d+)\.\.(\d+)\<close>\<close>

definition loop_pattern :: rx where
  "loop_pattern =
     cat [RLit ''for'', RPlus CSpace, RPlus CWord, RPlus CSpace, RLit ''in'', RPlus CSpace,
          RGrp 1 (RPlus CDigit), RLit ''..'', RGrp 2 (RPlus CDigit)]"

text \<open>\<^verbatim>\<open>\[\w+\]\<close>\<close>

definition index_pattern :: rx where
  "index_pattern = cat [RLit ''['', RPlus CWord, RLit '']'']"

definition count_matches :: "rx \<Rightarrow> string \<Rightarrow> int" where
  "count_matches r body = int (length (findall r body))"

text \<open>\<^verbatim>\<open>re.findall(r'MerkleTree(?:Client)?<(\d+)>', body)\<close>: the depth texts.\<close>

definition merkle_matches :: "string \<Rightarrow> string list" where
  "merkle_matches body = map (\<lambda>m. group m 1) (findall merkle_pattern body)"

text \<open>
  A Merkle-structure type reference with a decimal depth starts the text \<open>t\<close>:
  \<^verbatim>\<open>MerkleTree<\<close> or \<^verbatim>\<open>MerkleTreeClient<\<close>, one or more digits, \<^verbatim>\<open>>\<close>.
\<close>

definition merkle_ref_at :: "string \<Rightarrow> bool" where
  "merkle_ref_at t =
     (\<exists>ds. ds \<noteq> [] \<and> list_all is_digit ds
        \<and> (prefix (''MerkleTree<'' @ ds @ ''>'') t \<or> prefix (''MerkleTreeClient<'' @ ds @ ''>'') t))"

text \<open>
  The Merkle step: \<^verbatim>\<open>if merkle_matches:\<close> adds the number of matches and records
  \<^verbatim>\<open>max(int(d) for d in merkle_matches)\<close>; with no match the counts stay as they are.
\<close>

definition count_merkle :: "string \<Rightarrow> OperationCounts \<Rightarrow> py_error + OperationCounts" where
  "count_merkle body ops =
     (case merkle_matches body of
        [] \<Rightarrow> Inr ops
      | d # ds \<Rightarrow>
          (case all_results (map py_int (d # ds)) of
             Inl e \<Rightarrow> Inl e
           | Inr depths \<Rightarrow>
               (case py_max depths of
                  Inl e \<Rightarrow> Inl e
                | Inr deepest \<Rightarrow>
                    Inr (ops\<lparr>merkle_proofs := merkle_proofs ops + int (length (d # ds)),
                             merkle_depth := deepest\<rparr>))))"

text \<open>One loop header: \<^verbatim>\<open>int(end) - int(start)\<close>, the left operand first.\<close>

definition loop_step :: "mstate \<Rightarrow> py_error + int" where
  "loop_step m =
     (case py_int (group m 2) of
        Inl e \<Rightarrow> Inl e
      | Inr hi \<Rightarrow> (case py_int (group m 1) of Inl e \<Rightarrow> Inl e | Inr lo \<Rightarrow> Inr (hi - lo)))"

definition loop_total :: "string \<Rightarrow> py_error + int" where
  "loop_total body =
     (case all_results (map loop_step (findall loop_pattern body)) of
        Inl e \<Rightarrow> Inl e
      | Inr ns \<Rightarrow> Inr (sum_list ns))"

text \<open>
  Each \<^verbatim>\<open>ops[key] += n\<close> is the update of that field by \<open>\<lambda>v. v + n\<close>. The two steps that
  call \<^verbatim>\<open>int\<close> can raise; the function then returns nothing.
\<close>

definition count_operations :: "string \<Rightarrow> py_error + OperationCounts" where
  "count_operations body =
     (let ops = \<lparr>hash_operations = 0, sha256_operations = 0, merkle_proofs = 0, merkle_depth = 0,
                inequality_comparisons = 0, equality_comparisons = 0, loop_iterations = 0,
                ec_operations = 0, collection_accesses = 0\<rparr>;
          ops = hash_operations_update
                  (\<lambda>v. v + count_matches (call_pattern ''persistentHash'') body) ops;
          ops = hash_operations_update
                  (\<lambda>v. v + count_matches (call_pattern ''persistentCommit'') body) ops;
          ops = hash_operations_update (\<lambda>v. v + count_matches (call_pattern ''hash'') body) ops;
          ops = sha256_operations_update
                  (\<lambda>v. v + count_matches (call_pattern ''sha256'') body) ops;
          ops = ec_operations_update (\<lambda>v. v + count_matches (call_pattern ''ecMul'') body) ops
      in case count_merkle body ops of
           Inl e \<Rightarrow> Inl e
         | Inr ops \<Rightarrow>
             (let ops = inequality_comparisons_update
                          (\<lambda>v. v + count_matches inequality_pattern body) ops;
                  ops = equality_comparisons_update
                          (\<lambda>v. v + count_matches equality_pattern body) ops
              in case loop_total body of
                   Inl e \<Rightarrow> Inl e
                 | Inr n \<Rightarrow>
                     (let ops = loop_iterations_update (\<lambda>v. v + n) ops;
                          ops = collection_accesses_update
                                  (\<lambda>v. v + count_matches index_pattern body) ops
                      in Inr ops)))"

text \<open>
  A line of the breakdown, by the numbers its text shows: a count (for Merkle proofs, the
  depth) and the cost, or the number of loop iterations.
\<close>

datatype breakdown_line =
    HashLine int int
  | Sha256Line int int
  | EcLine int int
  | MerkleLine int int
  | ComparisonLine int int
  | CollectionLine int int
  | LoopLine int

text \<open>
  One \<^verbatim>\<open>if count > 0:\<close> block: the cost is added to the total and a line is appended to
  the breakdown.
\<close>

definition add_cost ::
  "bool \<Rightarrow> int \<Rightarrow> breakdown_line \<Rightarrow> int \<times> breakdown_line list \<Rightarrow> int \<times> breakdown_line list" where
  "add_cost present cost entry acc =
     (if present then (fst acc + cost, snd acc @ [entry]) else acc)"

text \<open>\<^verbatim>\<open>ops['merkle_depth'] or 20\<close>\<close>

definition merkle_cost_depth :: "OperationCounts \<Rightarrow> int" where
  "merkle_cost_depth ops = (if merkle_depth ops \<noteq> 0 then merkle_depth ops else 20)"

text \<open>The last block appends a line for the loops and leaves the total as it is.\<close>

definition note_loops :: "OperationCounts \<Rightarrow> int \<times> breakdown_line list \<Rightarrow> int \<times> breakdown_line list" where
  "note_loops ops acc =
     (if loop_iterations ops > 1 then (fst acc, snd acc @ [LoopLine (loop_iterations ops)])
      else acc)"

definition estimate_constraints :: "OperationCounts \<Rightarrow> int \<times> breakdown_line list" where
  "estimate_constraints ops =
     (let acc = (0, []);
          cost = hash_operations ops * cost_of ''persistentHash'';
          acc = add_cost (hash_operations ops > 0) cost (HashLine (hash_operations ops) cost) acc;
          cost = sha256_operations ops * cost_of ''sha256'';
          acc = add_cost (sha256_operations ops > 0) cost
                  (Sha256Line (sha256_operations ops) cost) acc;
          cost = ec_operations ops * cost_of ''ecMul'';
          acc = add_cost (ec_operations ops > 0) cost (EcLine (ec_operations ops) cost) acc;
          depth = merkle_cost_depth ops;
          cost = merkle_proofs ops * depth * cost_of ''merkle_hash_per_level'';
          acc = add_cost (merkle_proofs ops > 0) cost (MerkleLine depth cost) acc;
          cost = inequality_comparisons ops * cost_of ''comparison_inequality'';
          acc = add_cost (inequality_comparisons ops > 0) cost
                  (ComparisonLine (inequality_comparisons ops) cost) acc;
          cost = collection_accesses ops * cost_of ''map_membership'';
          acc = add_cost (collection_accesses ops > 0) cost
                  (CollectionLine (collection_accesses ops) cost) acc;
          acc = note_loops ops acc
      in acc)"









section \<open>Facts about the text primitives\<close>

lemma str_in_sublist: "str_in sub s = sublist sub s"
  by (induction s) (auto simp: sublist_Cons_right)


lemma control_flow_issues_empty:
  "control_flow_issues lines = [] \<longleftrightarrow> (\<forall>l \<in> set lines. \<not> found control_flow_pattern l)"
proof -
  have s: "snd ` set (enumerate 1 lines) = set lines"
    by (metis map_snd_enumerate set_map)
  have "control_flow_issues lines = [] \<longleftrightarrow>
      (\<forall>l \<in> snd ` set (enumerate 1 lines). \<not> found control_flow_pattern l)"
    by (auto simp: control_flow_issues_def filter_empty_conv)
  then show ?thesis
    unfolding s .
qed

lemma control_flow_issue_member:
  assumes "i < length lines" and "found control_flow_pattern (lines ! i)"
  shows "r4_issue (Suc i) \<in> set (control_flow_issues lines)"
proof -
  have "(Suc i, lines ! i) \<in> set (enumerate 1 lines)"
    using assms(1) by (simp add: in_set_enumerate_eq)
  then show ?thesis
    using assms(2) unfolding control_flow_issues_def by force
qed

section \<open>The disclosure checker on files without witnesses\<close>

text \<open>
  Claim C1, as amended. The claim says that a file with no witness declaration has an empty
  issue list and exit code 0, also when it has a line such as \<^verbatim>\<open>if get_x()\<close>. The scan for
  witness-dependent control flow runs over every line whatever the witnesses are, so the
  claim fails on such a line. What holds: with no witness declaration the issue list is
  exactly the list of control-flow issues, it is empty exactly when no line matches
  \<^verbatim>\<open>if\s+.*\bget_\w+\s*\(\)\<close>, and a run on a readable \<^verbatim>\<open>.compact\<close> file exits 0 in that case
  and 1 otherwise.
\<close>

theorem no_witness_only_control_flow:
  assumes "find_witness_declarations content = []"
  shows "check_disclosure_violations content lines = control_flow_issues lines
       \<and> (check_disclosure_violations content lines = []
            \<longleftrightarrow> (\<forall>l \<in> set lines. \<not> found control_flow_pattern l))
       \<and> (2 \<le> length argv \<and> suffix ''.compact'' (argv ! 1) \<and> read_file (argv ! 1) = Content content
            \<longrightarrow> exit_code (disclosure_main argv read_file) =
                 (if \<forall>l \<in> set (split_lines content). \<not> found control_flow_pattern l then 0 else 1))"
proof -
  have eq: "check_disclosure_violations content ls = control_flow_issues ls" for ls
    using assms by (simp add: check_disclosure_violations_def)
  show ?thesis
    by (auto simp: eq control_flow_issues_empty disclosure_main_def report_issues_def Let_def)
qed

text \<open>The theorem at a file with one circuit, no witness and no conditional.\<close>

theorem no_witness_only_control_flow_witness:
  "find_witness_declarations ''circuit f(): [] { return 1; }'' = []
   \<and> exit_code (disclosure_main [''check-disclosure.py'', ''a.compact'']
        (\<lambda>p. Content ''circuit f(): [] { return 1; }'')) = 0"
proof -
  have h: "find_witness_declarations ''circuit f(): [] { return 1; }'' = []"
    by code_simp
  have a: "2 \<le> length [''check-disclosure.py'', ''a.compact'']
      \<and> suffix ''.compact'' ([''check-disclosure.py'', ''a.compact''] ! 1)
      \<and> (\<lambda>p. Content ''circuit f(): [] { return 1; }'') ([''check-disclosure.py'', ''a.compact''] ! 1)
          = Content ''circuit f(): [] { return 1; }''"
    by code_simp
  have n: "\<forall>l \<in> set (split_lines ''circuit f(): [] { return 1; }''). \<not> found control_flow_pattern l"
    by code_simp
  note t = no_witness_only_control_flow [OF h,
      of "split_lines ''circuit f(): [] { return 1; }''"
         "[''check-disclosure.py'', ''a.compact'']" "\<lambda>p. Content ''circuit f(): [] { return 1; }''"]
  have "exit_code (disclosure_main [''check-disclosure.py'', ''a.compact'']
        (\<lambda>p. Content ''circuit f(): [] { return 1; }'')) =
      (if \<forall>l \<in> set (split_lines ''circuit f(): [] { return 1; }'').
            \<not> found control_flow_pattern l then 0 else 1)"
    by (rule t [THEN conjunct2, THEN conjunct2, THEN mp, OF a])
  also have "\<dots> = 0"
    by (rule if_P [OF n])
  finally show ?thesis
    using h by (rule_tac conjI)
qed

text \<open>
  The claim as stated fails on the one-line file \<^verbatim>\<open>if get_x() {\<close>: no witness is declared,
  one issue is reported and the exit code is 1.
\<close>

theorem no_witness_control_flow_counterexample:
  "find_witness_declarations ''if get_x() {'' = []
   \<and> check_disclosure_violations ''if get_x() {'' (split_lines ''if get_x() {'') = [r4_issue 1]
   \<and> exit_code (disclosure_main [''check-disclosure.py'', ''a.compact'']
        (\<lambda>p. Content ''if get_x() {'')) = 1"
  by code_simp

section \<open>The constraint estimate\<close>

text \<open>
  Claim C2 at its own input. A circuit body whose only operation-relevant text is one
  reference \<^verbatim>\<open>MerkleTree<24>\<close> is counted as one Merkle proof of depth 24 and as two
  inequality comparisons, the angle brackets of the reference itself matching \<^verbatim>\<open>[<>]=?\<close>: the
  estimate is 24000 + 2 * 254 = 24508, not 24000.
\<close>

theorem merkle_reference_estimate:
  "count_operations ''{ MerkleTree<24> }'' =
     Inr \<lparr>hash_operations = 0, sha256_operations = 0, merkle_proofs = 1, merkle_depth = 24,
          inequality_comparisons = 2, equality_comparisons = 0, loop_iterations = 0,
          ec_operations = 0, collection_accesses = 0\<rparr>
   \<and> fst (estimate_constraints
          \<lparr>hash_operations = 0, sha256_operations = 0, merkle_proofs = 1, merkle_depth = 24,
           inequality_comparisons = 2, equality_comparisons = 0, loop_iterations = 0,
           ec_operations = 0, collection_accesses = 0\<rparr>) = 24508
   \<and> map_sum id (\<lambda>ops. fst (estimate_constraints ops)) (count_operations ''{ MerkleTree<24> }'')
       = Inr 24508"
  by code_simp



section \<open>The matcher and the texts of a pattern\<close>

lemma rests_simps [simp]:
  "rests [] = {}" "rests (m # ms) = insert (fst (snd m)) (rests ms)"
  "rests (ms @ ns) = rests ms \<union> rests ns"
  by (auto simp: rests_def)

lemma star_ends_rests:
  "snd ` set (star_ends c p t) = {t'. \<exists>w. list_all (cls_ok c) w \<and> t = w @ t'}"
proof (induction t arbitrary: p)
  case Nil
  show ?case by auto
next
  case (Cons x xs)
  show ?case
  proof (cases "cls_ok c x")
    case True
    have "{t'. \<exists>w. list_all (cls_ok c) w \<and> x # xs = w @ t'}
        = insert (x # xs) {t'. \<exists>w. list_all (cls_ok c) w \<and> xs = w @ t'}"
    proof (intro set_eqI iffI)
      fix t' assume "t' \<in> {t'. \<exists>w. list_all (cls_ok c) w \<and> x # xs = w @ t'}"
      then obtain w where w: "list_all (cls_ok c) w" "x # xs = w @ t'" by blast
      show "t' \<in> insert (x # xs) {t'. \<exists>w. list_all (cls_ok c) w \<and> xs = w @ t'}"
      proof (cases w)
        case Nil
        then show ?thesis using w by simp
      next
        case (Cons y ys)
        then show ?thesis using w by auto
      qed
    next
      fix t' assume "t' \<in> insert (x # xs) {t'. \<exists>w. list_all (cls_ok c) w \<and> xs = w @ t'}"
      then consider "t' = x # xs" | w where "list_all (cls_ok c) w" "xs = w @ t'" by blast
      then show "t' \<in> {t'. \<exists>w. list_all (cls_ok c) w \<and> x # xs = w @ t'}"
      proof cases
        case 1
        then have "list_all (cls_ok c) [] \<and> x # xs = [] @ t'" by simp
        then show ?thesis by blast
      next
        case 2
        then have "list_all (cls_ok c) (x # w) \<and> x # xs = (x # w) @ t'" using True by simp
        then show ?thesis by blast
      qed
    qed
    then show ?thesis using True Cons.IH [of "Some x"] by (simp add: image_Un)
  next
    case False
    have "{t'. \<exists>w. list_all (cls_ok c) w \<and> x # xs = w @ t'} = {x # xs}"
    proof (intro set_eqI iffI)
      fix t' assume "t' \<in> {t'. \<exists>w. list_all (cls_ok c) w \<and> x # xs = w @ t'}"
      then obtain w where w: "list_all (cls_ok c) w" "x # xs = w @ t'" by blast
      show "t' \<in> {x # xs}"
      proof (cases w)
        case Nil
        then show ?thesis using w by simp
      next
        case (Cons y ys)
        then show ?thesis using w False by auto
      qed
    next
      fix t' assume "t' \<in> {x # xs}"
      then have "list_all (cls_ok c) [] \<and> x # xs = [] @ t'" by simp
      then show "t' \<in> {t'. \<exists>w. list_all (cls_ok c) w \<and> x # xs = w @ t'}" by blast
    qed
    then show ?thesis using False by simp
  qed
qed

lemma rests_map_star:
  "rests (map (\<lambda>(p', s'). (p', s', g)) xs) = snd ` set xs"
  by (force simp: rests_def)

lemma rests_concat: "rests (concat (map f ms)) = (\<Union>m \<in> set ms. rests (f m))"
  by (induction ms) auto

lemma ends_rests:
  "no_wordb r \<Longrightarrow> rests (ends r (p, t, g)) = {t'. \<exists>w \<in> lang r. t = w @ t'}"
proof (induction r arbitrary: p t g)
  case (RLit l)
  show ?case by (auto simp: prefix_def)
next
  case (RChr c)
  show ?case by (cases t) auto
next
  case (RStar c)
  show ?case by (simp add: rests_map_star star_ends_rests)
next
  case (RPlus c)
  show ?case
  proof (cases t)
    case Nil
    then show ?thesis by simp
  next
    case (Cons x xs)
    show ?thesis
    proof (cases "cls_ok c x")
      case True
      have "{t'. \<exists>w. list_all (cls_ok c) w \<and> xs = w @ t'}
          = {t'. \<exists>w. w \<noteq> [] \<and> list_all (cls_ok c) w \<and> x # xs = w @ t'}"
      proof (intro set_eqI iffI)
        fix t' assume "t' \<in> {t'. \<exists>w. list_all (cls_ok c) w \<and> xs = w @ t'}"
        then obtain w where "list_all (cls_ok c) w" "xs = w @ t'" by blast
        then have "x # w \<noteq> [] \<and> list_all (cls_ok c) (x # w) \<and> x # xs = (x # w) @ t'"
          using True by simp
        then show "t' \<in> {t'. \<exists>w. w \<noteq> [] \<and> list_all (cls_ok c) w \<and> x # xs = w @ t'}" by blast
      next
        fix t' assume "t' \<in> {t'. \<exists>w. w \<noteq> [] \<and> list_all (cls_ok c) w \<and> x # xs = w @ t'}"
        then obtain w where w: "w \<noteq> []" "list_all (cls_ok c) w" "x # xs = w @ t'" by blast
        then obtain y ys where "w = y # ys" by (cases w) auto
        then have "list_all (cls_ok c) ys \<and> xs = ys @ t'" using w by simp
        then show "t' \<in> {t'. \<exists>w. list_all (cls_ok c) w \<and> xs = w @ t'}" by blast
      qed
      then show ?thesis using Cons True by (simp add: rests_map_star star_ends_rests)
    next
      case False
      have "\<And>w t'. w \<noteq> [] \<Longrightarrow> list_all (cls_ok c) w \<Longrightarrow> x # xs \<noteq> w @ t'"
      proof -
        fix w t' assume "w \<noteq> []" "list_all (cls_ok c) w"
        then obtain y ys where "w = y # ys" "cls_ok c y" by (cases w) auto
        then show "x # xs \<noteq> w @ t'" using False by auto
      qed
      then show ?thesis using Cons False by auto
    qed
  qed
next
  case (ROpt r)
  then show ?case by auto
next
  case (RSeq a b)
  have a: "rests (ends a (p, t, g)) = {t'. \<exists>w \<in> lang a. t = w @ t'}"
    using RSeq by simp
  have b: "rests (ends b m) = {t''. \<exists>v \<in> lang b. fst (snd m) = v @ t''}" for m
    using RSeq.IH(2) [of "fst m" "fst (snd m)" "snd (snd m)"] RSeq.prems by simp
  have "rests (ends (RSeq a b) (p, t, g))
      = (\<Union>t' \<in> rests (ends a (p, t, g)). {t''. \<exists>v \<in> lang b. t' = v @ t''})"
    by (simp add: rests_concat b) (auto simp: rests_def)
  also have "\<dots> = {t''. \<exists>w \<in> lang (RSeq a b). t = w @ t''}"
    unfolding a by (auto simp: append_eq_append_conv2) blast+
  finally show ?case .
next
  case RWordB
  then show ?case by simp
next
  case (RGrp n r)
  have "rests (ends (RGrp n r) (p, t, g)) = rests (ends r (p, t, g))"
    by (force simp: rests_def)
  then show ?case using RGrp by simp
qed

lemma match_at_lang:
  assumes "no_wordb r"
  shows "match_at r p t \<noteq> None \<longleftrightarrow> (\<exists>w \<in> lang r. prefix w t)"
proof -
  have "match_at r p t \<noteq> None \<longleftrightarrow> rests (ends r (p, t, [])) \<noteq> {}"
    by (cases "ends r (p, t, [])") (simp_all add: match_at_def)
  also have "\<dots> \<longleftrightarrow> (\<exists>w \<in> lang r. prefix w t)"
    unfolding ends_rests [OF assms] by (auto simp: prefix_def)
  finally show ?thesis .
qed

lemma search_from_lang:
  assumes "no_wordb r"
  shows "search_from r p s \<noteq> None \<longleftrightarrow> (\<exists>w \<in> lang r. sublist w s)"
proof (induction s arbitrary: p)
  case Nil
  show ?case using match_at_lang [OF assms, of p "[]"] by simp
next
  case (Cons x xs)
  have "search_from r p (x # xs) \<noteq> None
      \<longleftrightarrow> match_at r p (x # xs) \<noteq> None \<or> search_from r (Some x) xs \<noteq> None"
    by (cases "match_at r p (x # xs)") simp_all
  also have "\<dots> \<longleftrightarrow> (\<exists>w \<in> lang r. prefix w (x # xs)) \<or> (\<exists>w \<in> lang r. sublist w xs)"
    unfolding match_at_lang [OF assms] Cons.IH ..
  also have "\<dots> \<longleftrightarrow> (\<exists>w \<in> lang r. sublist w (x # xs))"
    by (auto simp: sublist_Cons_right)
  finally show ?case .
qed

lemma found_lang:
  "no_wordb r \<Longrightarrow> found r s \<longleftrightarrow> (\<exists>w \<in> lang r. str_in w s)"
  unfolding found_def search_def str_in_sublist by (rule search_from_lang)

section \<open>The entropy classifier\<close>

lemma low_entropy_langs:
  "lang (cat [RLit ''Uint<'', RChr (CRange CHR ''1'' CHR ''9''), RLit ''>''])
     = {''Uint<'' @ [d] @ ''>'' | d. cls_ok (CRange CHR ''1'' CHR ''9'') d}"
  "lang (cat [RLit ''Uint<1'', RChr (CRange CHR ''0'' CHR ''9''), RLit ''>''])
     = {''Uint<1'' @ [d] @ ''>'' | d. cls_ok (CRange CHR ''0'' CHR ''9'') d}"
  by (auto simp: cat_def)

lemma is_low_entropy_type_iff:
  "is_low_entropy_type s \<longleftrightarrow>
     (\<exists>d. cls_ok (CRange CHR ''1'' CHR ''9'') d \<and> str_in (''Uint<'' @ [d] @ ''>'') s)
     \<or> (\<exists>d. cls_ok (CRange CHR ''0'' CHR ''9'') d \<and> str_in (''Uint<1'' @ [d] @ ''>'') s)
     \<or> str_in ''Boolean'' s \<or> str_in ''Enum<'' s"
proof -
  have nw: "no_wordb (cat [RLit ''Uint<'', RChr (CRange CHR ''1'' CHR ''9''), RLit ''>''])"
    "no_wordb (cat [RLit ''Uint<1'', RChr (CRange CHR ''0'' CHR ''9''), RLit ''>''])"
    "no_wordb (RLit ''Boolean'')" "no_wordb (RLit ''Enum<'')"
    by (simp_all add: cat_def)
  show ?thesis
    unfolding is_low_entropy_type_def low_entropy_patterns_def list_ex_Cons_iff list_ex_Nil_iff
      found_lang [OF nw(1)] found_lang [OF nw(2)] found_lang [OF nw(3)] found_lang [OF nw(4)]
      low_entropy_langs
    by (auto simp del: str_in.simps)
qed

lemma of_char_digit_chr: "d < 10 \<Longrightarrow> (of_char (digit_chr d) :: nat) = 48 + d"
  by (simp add: digit_chr_def)

lemma is_digit_digit_chr: "d < 10 \<Longrightarrow> is_digit (digit_chr d)"
  by (simp add: is_digit_def of_char_digit_chr)

lemma digit_chr_inj: "a < 10 \<Longrightarrow> b < 10 \<Longrightarrow> digit_chr a = digit_chr b \<Longrightarrow> a = b"
  by (metis of_char_digit_chr add_left_cancel)

lemma digit_chr_1: "digit_chr (Suc 0) = CHR ''1''"
  by code_simp

lemma str_nat_small: "w < 10 \<Longrightarrow> str_nat w = [digit_chr w]"
  by (simp add: str_nat.simps)

lemma str_nat_two: "10 \<le> w \<Longrightarrow> w < 100 \<Longrightarrow> str_nat w = [digit_chr (w div 10), digit_chr (w mod 10)]"
  by (subst str_nat.simps) (simp add: str_nat_small)

lemma str_nat_length: "length (str_nat w) = (if w < 10 then 1 else Suc (length (str_nat (w div 10))))"
  by (subst str_nat.simps) simp

lemma str_nat_long: "100 \<le> w \<Longrightarrow> 3 \<le> length (str_nat w)"
proof -
  assume w: "100 \<le> w"
  then have "10 \<le> w div 10" by simp
  then have "2 \<le> length (str_nat (w div 10))"
    by (subst str_nat_length) (simp add: str_nat_length [of "w div 10 div 10"])
  then show ?thesis using w by (subst str_nat_length) simp
qed

lemma str_nat_digits: "list_all is_digit (str_nat w)"
proof (induction w rule: str_nat.induct)
  case (1 n)
  show ?case
  proof (cases "n < 10")
    case True
    then show ?thesis by (simp add: str_nat_small is_digit_digit_chr)
  next
    case False
    then have "list_all is_digit (str_nat (n div 10))" using 1 by simp
    moreover have "is_digit (digit_chr (n mod 10))" by (simp add: is_digit_digit_chr)
    ultimately show ?thesis using False by (subst str_nat.simps) simp
  qed
qed

lemma sublist_unique_head:
  assumes "sublist (c # P) T" and "c \<notin> set (tl T)"
  shows "prefix (c # P) T"
proof -
  obtain ps ss where T: "T = ps @ (c # P) @ ss"
    using assms(1) by (auto simp: sublist_def)
  show ?thesis
  proof (cases ps)
    case Nil
    then show ?thesis using T by simp
  next
    case (Cons x xs)
    then have "c \<in> set (tl T)" using T by simp
    then show ?thesis using assms(2) by simp
  qed
qed

lemma uint_one_digit:
  assumes "list_all is_digit ds"
  shows "str_in (''Uint<'' @ [d] @ ''>'') (''Uint<'' @ ds @ ''>'') \<longleftrightarrow> ds = [d]"
proof
  assume "str_in (''Uint<'' @ [d] @ ''>'') (''Uint<'' @ ds @ ''>'')"
  then have s: "sublist (CHR ''U'' # (''int<'' @ [d] @ ''>'')) (''Uint<'' @ ds @ ''>'')"
    by (simp add: str_in_sublist del: str_in.simps)
  have "\<not> is_digit CHR ''U''" by (simp add: is_digit_def)
  then have "CHR ''U'' \<notin> set ds" using assms by (auto simp: list_all_iff)
  then have "CHR ''U'' \<notin> set (tl (''Uint<'' @ ds @ ''>''))" by simp
  from sublist_unique_head [OF s this] have p: "prefix ([d] @ ''>'') (ds @ ''>'')" by simp
  have g: "\<not> is_digit CHR ''>''" by (simp add: is_digit_def)
  show "ds = [d]"
  proof (cases ds)
    case Nil
    then show ?thesis using p by simp
  next
    case (Cons x xs)
    then have "x = d" and q: "prefix ''>'' (xs @ ''>'')" using p by simp_all
    show ?thesis
    proof (cases xs)
      case Nil
      then show ?thesis using Cons \<open>x = d\<close> by simp
    next
      case (Cons y ys)
      then have "y = CHR ''>''" using q by simp
      then show ?thesis using assms g Cons \<open>ds = x # xs\<close> by simp
    qed
  qed
next
  assume "ds = [d]"
  then show "str_in (''Uint<'' @ [d] @ ''>'') (''Uint<'' @ ds @ ''>'')"
    by (simp add: str_in_sublist del: str_in.simps)
qed

lemma uint_teen_digit:
  assumes "list_all is_digit ds"
  shows "str_in (''Uint<1'' @ [d] @ ''>'') (''Uint<'' @ ds @ ''>'') \<longleftrightarrow> ds = [CHR ''1'', d]"
proof
  assume "str_in (''Uint<1'' @ [d] @ ''>'') (''Uint<'' @ ds @ ''>'')"
  then have s: "sublist (CHR ''U'' # (''int<1'' @ [d] @ ''>'')) (''Uint<'' @ ds @ ''>'')"
    by (simp add: str_in_sublist del: str_in.simps)
  have "\<not> is_digit CHR ''U''" by (simp add: is_digit_def)
  then have "CHR ''U'' \<notin> set ds" using assms by (auto simp: list_all_iff)
  then have "CHR ''U'' \<notin> set (tl (''Uint<'' @ ds @ ''>''))" by simp
  from sublist_unique_head [OF s this] have p: "prefix (CHR ''1'' # [d] @ ''>'') (ds @ ''>'')" by simp
  have g: "\<not> is_digit CHR ''>''" by (simp add: is_digit_def)
  show "ds = [CHR ''1'', d]"
  proof (cases ds)
    case Nil
    then show ?thesis using p by simp
  next
    case c1: (Cons x xs)
    then have x: "x = CHR ''1''" and q: "prefix ([d] @ ''>'') (xs @ ''>'')" using p by simp_all
    show ?thesis
    proof (cases xs)
      case Nil
      then show ?thesis using q by simp
    next
      case c2: (Cons y ys)
      then have y: "y = d" and q2: "prefix ''>'' (ys @ ''>'')" using q by simp_all
      show ?thesis
      proof (cases ys)
        case Nil
        then show ?thesis using c1 c2 x y by simp
      next
        case (Cons z zs)
        then have "z = CHR ''>''" using q2 by simp
        then show ?thesis using assms g Cons c1 c2 by simp
      qed
    qed
  qed
next
  assume "ds = [CHR ''1'', d]"
  then show "str_in (''Uint<1'' @ [d] @ ''>'') (''Uint<'' @ ds @ ''>'')"
    by (simp add: str_in_sublist del: str_in.simps)
qed

lemma uint_no_word:
  assumes "list_all is_digit ds"
  shows "\<not> str_in ''Boolean'' (''Uint<'' @ ds @ ''>'')" and "\<not> str_in ''Enum<'' (''Uint<'' @ ds @ ''>'')"
proof -
  have "\<not> is_digit CHR ''B''" "\<not> is_digit CHR ''E''" by (simp_all add: is_digit_def)
  then have n: "CHR ''B'' \<notin> set (''Uint<'' @ ds @ ''>'')" "CHR ''E'' \<notin> set (''Uint<'' @ ds @ ''>'')"
    using assms by (auto simp: list_all_iff)
  show "\<not> str_in ''Boolean'' (''Uint<'' @ ds @ ''>'')"
    using n(1) set_mono_sublist [of "''Boolean''" "''Uint<'' @ ds @ ''>''"]
    unfolding str_in_sublist by auto
  show "\<not> str_in ''Enum<'' (''Uint<'' @ ds @ ''>'')"
    using n(2) set_mono_sublist [of "''Enum<''" "''Uint<'' @ ds @ ''>''"]
    unfolding str_in_sublist by auto
qed

lemma one_digit_width:
  "(\<exists>d. cls_ok (CRange CHR ''1'' CHR ''9'') d \<and> str_nat w = [d]) \<longleftrightarrow> 1 \<le> w \<and> w \<le> 9"
proof (cases "w < 10")
  case True
  then show ?thesis by (auto simp: str_nat_small of_char_digit_chr)
next
  case False
  then have "2 \<le> length (str_nat w)"
    by (subst str_nat_length) (simp add: str_nat_length [of "w div 10"])
  then show ?thesis using False by auto
qed

lemma teen_width:
  "(\<exists>d. cls_ok (CRange CHR ''0'' CHR ''9'') d \<and> str_nat w = [CHR ''1'', d]) \<longleftrightarrow> 10 \<le> w \<and> w \<le> 19"
proof -
  consider "w < 10" | "10 \<le> w" "w < 100" | "100 \<le> w" by linarith
  then show ?thesis
  proof cases
    case 1
    then show ?thesis by (simp add: str_nat_small)
  next
    case 2
    have d: "w div 10 < 10" "w mod 10 < 10" using 2 by simp_all
    have "digit_chr (w div 10) = CHR ''1'' \<longleftrightarrow> w div 10 = Suc 0"
      using digit_chr_inj [of "w div 10" "Suc 0"] d(1) by (auto simp: digit_chr_1)
    moreover have "w div 10 = Suc 0 \<longleftrightarrow> 10 \<le> w \<and> w \<le> 19" by auto
    ultimately show ?thesis using 2 d(2) by (auto simp: str_nat_two of_char_digit_chr)
  next
    case 3
    then show ?thesis using str_nat_long [OF 3] by auto
  qed
qed

lemma uint_width_low:
  "is_low_entropy_type (''Uint<'' @ str_nat w @ ''>'') \<longleftrightarrow> 1 \<le> w \<and> w \<le> 19"
  unfolding is_low_entropy_type_iff uint_one_digit [OF str_nat_digits]
    uint_teen_digit [OF str_nat_digits] one_digit_width teen_width
  using uint_no_word [OF str_nat_digits, of w] by auto

lemma spec_low_is_low:
  assumes "spec_classify_low s"
  shows "is_low_entropy_type s"
proof -
  consider w where "1 \<le> w" "w \<le> 19" "s = ''Uint<'' @ str_nat w @ ''>''"
    | "s = ''Boolean''" | "prefix ''Enum<'' s"
    using assms by (auto simp: spec_classify_low_def list_ex_iff)
  then show ?thesis
  proof cases
    case 1
    then show ?thesis using uint_width_low [of w] by simp
  next
    case 2
    have "str_in ''Boolean'' ''Boolean''" by (simp add: str_in_sublist del: str_in.simps)
    then show ?thesis unfolding 2 is_low_entropy_type_iff by blast
  next
    case 3
    then have "sublist ''Enum<'' s" by (rule prefix_imp_sublist)
    then have "str_in ''Enum<'' s" by (simp only: str_in_sublist)
    then show ?thesis unfolding is_low_entropy_type_iff by blast
  qed
qed

text \<open>
  Claim C4, as amended. The claim says the classifier answers low exactly when the signature
  is a bit-width integer type of width 1 to 19, a boolean type or a tagged-enumeration
  type. The classifier searches the signature for its four patterns without anchoring them:
  it answers low exactly when the signature contains \<^verbatim>\<open>Uint<d>\<close> with \<open>d\<close> from 1 to 9,
  \<^verbatim>\<open>Uint<1d>\<close> with \<open>d\<close> a digit, \<^verbatim>\<open>Boolean\<close> or \<^verbatim>\<open>Enum<\<close> somewhere. So a type \<^verbatim>\<open>Uint<w>\<close> is
  low exactly when \<open>1 \<le> w \<le> 19\<close>, every signature the specification calls low is low, and
  so is any other signature that contains one of these texts.
\<close>

theorem low_entropy_by_occurrence:
  "(is_low_entropy_type s \<longleftrightarrow>
      (\<exists>d. cls_ok (CRange CHR ''1'' CHR ''9'') d \<and> str_in (''Uint<'' @ [d] @ ''>'') s)
      \<or> (\<exists>d. cls_ok (CRange CHR ''0'' CHR ''9'') d \<and> str_in (''Uint<1'' @ [d] @ ''>'') s)
      \<or> str_in ''Boolean'' s \<or> str_in ''Enum<'' s)
   \<and> (is_low_entropy_type (''Uint<'' @ str_nat w @ ''>'') \<longleftrightarrow> 1 \<le> w \<and> w \<le> 19)
   \<and> (spec_classify_low s \<longrightarrow> is_low_entropy_type s)"
  using is_low_entropy_type_iff [of s] uint_width_low [of w] spec_low_is_low [of s]
  by blast

text \<open>The theorem at widths 19 and 20 and at the boolean type.\<close>

theorem low_entropy_by_occurrence_witness:
  "str_nat 19 = ''19'' \<and> is_low_entropy_type (''Uint<'' @ str_nat 19 @ ''>'')
   \<and> str_nat 20 = ''20'' \<and> \<not> is_low_entropy_type (''Uint<'' @ str_nat 20 @ ''>'')
   \<and> spec_classify_low ''Boolean'' \<and> is_low_entropy_type ''Boolean''"
proof -
  have a: "str_nat 19 = ''19''" "str_nat 20 = ''20''" "spec_classify_low ''Boolean''"
    by code_simp+
  have b: "is_low_entropy_type (''Uint<'' @ str_nat 19 @ ''>'')"
    using low_entropy_by_occurrence [of "''Boolean''" 19] by simp
  have c: "\<not> is_low_entropy_type (''Uint<'' @ str_nat 20 @ ''>'')"
    using low_entropy_by_occurrence [of "''Boolean''" 20] by simp
  have d: "is_low_entropy_type ''Boolean''"
    using low_entropy_by_occurrence [of "''Boolean''" 0] a(3) by blast
  show ?thesis
    by (intro conjI) (rule a(1), rule b, rule a(2), rule c, rule a(3), rule d)
qed

text \<open>
  The claim as stated fails on \<^verbatim>\<open>Maybe<Boolean>\<close>: it is none of the three kinds of type, and
  the classifier answers low.
\<close>

theorem low_entropy_counterexample:
  "is_low_entropy_type ''Maybe<Boolean>'' \<and> \<not> spec_classify_low ''Maybe<Boolean>''"
  by code_simp

section \<open>Exit codes of the complexity analyzer\<close>












section \<open>Counting Merkle references\<close>

lemma cls_ok_digit: "cls_ok CDigit = is_digit"
  by (rule ext) simp

lemma lang_seq_lit: "lang (RSeq (RLit l) r) = (@) l ` lang r"
  by auto

lemma lang_seq_opt_lit: "lang (RSeq (ROpt (RLit l)) r) = lang r \<union> (@) l ` lang r"
proof (intro set_eqI iffI)
  fix w assume "w \<in> lang (RSeq (ROpt (RLit l)) r)"
  then obtain u v where "w = u @ v" "u = [] \<or> u = l" "v \<in> lang r" by auto
  then show "w \<in> lang r \<union> (@) l ` lang r" by auto
next
  fix w assume "w \<in> lang r \<union> (@) l ` lang r"
  then consider "w \<in> lang r" | v where "v \<in> lang r" "w = l @ v" by auto
  then show "w \<in> lang (RSeq (ROpt (RLit l)) r)"
  proof cases
    case 1
    then have "w = [] @ w \<and> [] \<in> lang (ROpt (RLit l)) \<and> w \<in> lang r" by simp
    then show ?thesis unfolding lang.simps(6) by blast
  next
    case 2
    then have "w = l @ v \<and> l \<in> lang (ROpt (RLit l)) \<and> v \<in> lang r" by simp
    then show ?thesis unfolding lang.simps(6) by blast
  qed
qed

lemma merkle_lang:
  "lang merkle_pattern =
     {''MerkleTree<'' @ ds @ ''>'' | ds. ds \<noteq> [] \<and> list_all is_digit ds}
     \<union> {''MerkleTreeClient<'' @ ds @ ''>'' | ds. ds \<noteq> [] \<and> list_all is_digit ds}"
  unfolding merkle_pattern_def cat_def foldr.simps o_apply
    lang_seq_lit lang_seq_opt_lit
  by (auto simp: image_iff list_all_iff)

lemma merkle_no_wordb: "no_wordb merkle_pattern"
  by (simp add: merkle_pattern_def cat_def)

lemma merkle_match_at: "match_at merkle_pattern p t \<noteq> None \<longleftrightarrow> merkle_ref_at t"
  unfolding match_at_lang [OF merkle_no_wordb] merkle_lang merkle_ref_at_def
  by blast

lemma match_at_rest:
  assumes "no_wordb r" and "match_at r p s = Some (p', s', g)"
  shows "\<exists>w \<in> lang r. s = w @ s'"
proof -
  obtain ms where "ends r (p, s, []) = (p', s', g) # ms"
    using assms(2) by (cases "ends r (p, s, [])") (simp_all add: match_at_def)
  then have "s' \<in> rests (ends r (p, s, []))" by simp
  then show ?thesis unfolding ends_rests [OF assms(1)] by simp
qed

lemma findall_from_count:
  assumes nw: "no_wordb r"
    and hd: "\<And>w. w \<in> lang r \<Longrightarrow> \<exists>u. w = k # u \<and> k \<notin> set u"
  shows "length (findall_from r p s)
       = length (filter (\<lambda>t. \<exists>w \<in> lang r. prefix w t) (suffixes s))"
proof -
  define A where "A t \<longleftrightarrow> (\<exists>w \<in> lang r. prefix w t)" for t
  define cnt where "cnt t = length (filter A (suffixes t))" for t
  have A_match: "match_at r q t \<noteq> None \<longleftrightarrow> A t" for q t
    unfolding A_def by (rule match_at_lang [OF nw])
  have A_head: "\<exists>ys. t = k # ys" if a: "A t" for t
  proof -
    obtain w where w: "w \<in> lang r" "prefix w t" using a A_def by auto
    obtain u where "w = k # u" using hd [OF w(1)] by blast
    then show ?thesis using w(2) by (auto simp: prefix_def)
  qed
  have cnt_Cons: "cnt (x # xs) = cnt xs + (if A (x # xs) then 1 else 0)" for x xs
    by (simp add: cnt_def)
  have cnt_skip: "cnt (u @ t) = cnt t" if "k \<notin> set u" for u t
    using that
  proof (induction u)
    case Nil
    show ?case by simp
  next
    case (Cons y u)
    have "\<not> A (y # u @ t)" using A_head [of "y # u @ t"] Cons.prems by auto
    then show ?case using Cons by (simp add: cnt_Cons)
  qed
  have main: "length (findall_from r q t) = cnt t" for q t
  proof (induction "length t" arbitrary: t q rule: less_induct)
    case less
    show ?case
    proof (cases "match_at r q t")
      case None
      then have nA: "\<not> A t" using A_match [of q t] by simp
      show ?thesis
      proof (cases t)
        case Nil
        then show ?thesis using None nA by (simp add: findall_from.simps [of r q "[]"] cnt_def)
      next
        case (Cons x xs)
        have "length (findall_from r (Some x) xs) = cnt xs"
          using less [of xs "Some x"] Cons by simp
        then show ?thesis
          using None nA Cons by (simp add: findall_from.simps [of r q "x # xs"] cnt_Cons)
      qed
    next
      case (Some m)
      obtain p' s' g where m: "m = (p', s', g)" by (cases m) auto
      obtain w where w: "w \<in> lang r" "t = w @ s'"
        using match_at_rest [OF nw] Some m by blast
      obtain u where u: "w = k # u" "k \<notin> set u" using hd [OF w(1)] by blast
      have shorter: "length s' < length t" using w(2) u(1) by simp
      have "A t" using A_match [of q t] Some by simp
      then have "cnt t = cnt (u @ s') + 1" using w(2) u(1) by (simp add: cnt_Cons)
      then have c: "cnt t = cnt s' + 1" using cnt_skip [OF u(2)] by simp
      have "length (findall_from r p' s') = cnt s'"
        using less [of s' p'] shorter by simp
      then show ?thesis
        using Some m shorter c by (simp add: findall_from.simps [of r q t])
    qed
  qed
  have "A = (\<lambda>t. \<exists>w \<in> lang r. prefix w t)"
    by (rule ext) (simp add: A_def)
  then show ?thesis using main [of p s] by (simp add: cnt_def)
qed

lemma merkle_word_head:
  assumes "w \<in> lang merkle_pattern"
  shows "\<exists>u. w = CHR ''M'' # u \<and> CHR ''M'' \<notin> set u"
proof -
  have nd: "\<not> is_digit CHR ''M''" by (simp add: is_digit_def)
  obtain ds where ds: "list_all is_digit ds"
    "w = ''MerkleTree<'' @ ds @ ''>'' \<or> w = ''MerkleTreeClient<'' @ ds @ ''>''"
    using assms unfolding merkle_lang by blast
  have "CHR ''M'' \<notin> set ds" using ds(1) nd by (auto simp: list_all_iff)
  then show ?thesis using ds(2) by auto
qed

lemma merkle_findall_count:
  "length (findall merkle_pattern body) = length (filter merkle_ref_at (suffixes body))"
proof -
  have "(\<lambda>t. \<exists>w \<in> lang merkle_pattern. prefix w t) = merkle_ref_at"
    using merkle_match_at match_at_lang [OF merkle_no_wordb] by (intro ext) blast
  then show ?thesis
    unfolding findall_def
    using findall_from_count [OF merkle_no_wordb merkle_word_head, of None body] by simp
qed

text \<open>
  Claim C6 at a reference whose depth is not a number. In the body \<^verbatim>\<open>{ MerkleTree<N> }\<close>
  the reference is not counted: the pattern \<^verbatim>\<open>MerkleTree(?:Client)?<(\d+)>\<close> matches a
  reference only when its depth is a decimal literal, so the number of Merkle proofs is 0
  and the estimate has no Merkle term, where the claim counts the reference with depth 20.
  The estimate does provide the default: counts with one Merkle proof and depth 0 cost
  1 * 20 * 1000. It is the counting that never delivers a reference of unknown depth: for
  every body, the matches are the positions where a reference with a decimal depth starts.
\<close>

theorem merkle_unparsed_depth_not_counted:
  "count_operations ''{ MerkleTree<N> }'' =
     Inr \<lparr>hash_operations = 0, sha256_operations = 0, merkle_proofs = 0, merkle_depth = 0,
          inequality_comparisons = 2, equality_comparisons = 0, loop_iterations = 0,
          ec_operations = 0, collection_accesses = 0\<rparr>
   \<and> estimate_constraints
         \<lparr>hash_operations = 0, sha256_operations = 0, merkle_proofs = 0, merkle_depth = 0,
          inequality_comparisons = 2, equality_comparisons = 0, loop_iterations = 0,
          ec_operations = 0, collection_accesses = 0\<rparr> = (508, [ComparisonLine 2 508])
   \<and> estimate_constraints
         \<lparr>hash_operations = 0, sha256_operations = 0, merkle_proofs = 1, merkle_depth = 0,
          inequality_comparisons = 2, equality_comparisons = 0, loop_iterations = 0,
          ec_operations = 0, collection_accesses = 0\<rparr>
       = (20508, [MerkleLine 20 20000, ComparisonLine 2 508])
   \<and> length (merkle_matches body) = length (filter merkle_ref_at (suffixes body))"
proof -
  have a: "count_operations ''{ MerkleTree<N> }'' =
     Inr \<lparr>hash_operations = 0, sha256_operations = 0, merkle_proofs = 0, merkle_depth = 0,
          inequality_comparisons = 2, equality_comparisons = 0, loop_iterations = 0,
          ec_operations = 0, collection_accesses = 0\<rparr>"
    by code_simp
  have b: "estimate_constraints
         \<lparr>hash_operations = 0, sha256_operations = 0, merkle_proofs = 0, merkle_depth = 0,
          inequality_comparisons = 2, equality_comparisons = 0, loop_iterations = 0,
          ec_operations = 0, collection_accesses = 0\<rparr> = (508, [ComparisonLine 2 508])"
    by code_simp
  have c: "estimate_constraints
         \<lparr>hash_operations = 0, sha256_operations = 0, merkle_proofs = 1, merkle_depth = 0,
          inequality_comparisons = 2, equality_comparisons = 0, loop_iterations = 0,
          ec_operations = 0, collection_accesses = 0\<rparr>
       = (20508, [MerkleLine 20 20000, ComparisonLine 2 508])"
    by code_simp
  have d: "length (merkle_matches body) = length (filter merkle_ref_at (suffixes body))"
    by (simp add: merkle_matches_def merkle_findall_count)
  show ?thesis
    by (intro conjI) (rule a, rule b, rule c, rule d)
qed

section \<open>The order of the report\<close>

lemma insort_key_between:
  assumes "\<forall>a \<in> set A. f a < f x" and "\<forall>b \<in> set B. f x \<le> f b"
  shows "insort_key f x (A @ B) = A @ x # B"
  using assms
proof (induction A)
  case Nil
  then show ?case by (simp add: insort_is_Cons)
next
  case (Cons a A)
  then show ?case by (auto simp: leD)
qed

lemma severity_order_le3: "severity_order s \<le> 3"
  by (simp add: severity_order_def)

lemma sort_issues_by_rank:
  "sort_issues issues = by_rank 0 issues @ by_rank 1 issues @ by_rank 2 issues @ by_rank 3 issues"
proof (induction issues)
  case Nil
  show ?case by (simp add: sort_issues_def by_rank_def)
next
  case (Cons x xs)
  let ?f = "\<lambda>x. severity_order (severity x)"
  have step: "sort_issues (x # xs) = insort_key ?f x (sort_issues xs)"
    by (simp add: sort_issues_def)
  have r: "?f x = 0 \<or> ?f x = 1 \<or> ?f x = 2 \<or> ?f x = 3"
    using severity_order_le3 [of "severity x"] by arith
  then show ?case
  proof (elim disjE)
    assume k: "?f x = 0"
    have "insort_key ?f x ([] @ sort_issues xs) = [] @ x # sort_issues xs"
      by (rule insort_key_between) (simp_all add: k)
    then show ?thesis using k by (simp add: step Cons.IH by_rank_def)
  next
    assume k: "?f x = 1"
    have "insort_key ?f x (by_rank 0 xs @ (by_rank 1 xs @ by_rank 2 xs @ by_rank 3 xs))
        = by_rank 0 xs @ x # (by_rank 1 xs @ by_rank 2 xs @ by_rank 3 xs)"
      by (rule insort_key_between) (auto simp: k by_rank_def)
    then show ?thesis using k by (simp add: step Cons.IH) (simp add: by_rank_def)
  next
    assume k: "?f x = 2"
    have "insort_key ?f x ((by_rank 0 xs @ by_rank 1 xs) @ (by_rank 2 xs @ by_rank 3 xs))
        = (by_rank 0 xs @ by_rank 1 xs) @ x # (by_rank 2 xs @ by_rank 3 xs)"
      by (rule insort_key_between) (auto simp: k by_rank_def)
    then show ?thesis using k by (simp add: step Cons.IH) (simp add: by_rank_def)
  next
    assume k: "?f x = 3"
    have "insort_key ?f x ((by_rank 0 xs @ by_rank 1 xs @ by_rank 2 xs) @ by_rank 3 xs)
        = (by_rank 0 xs @ by_rank 1 xs @ by_rank 2 xs) @ x # by_rank 3 xs"
      by (rule insort_key_between) (auto simp: k by_rank_def)
    then show ?thesis using k by (simp add: step Cons.IH) (simp add: by_rank_def)
  qed
qed

lemma rank_severity:
  "severity_order s = 0 \<longleftrightarrow> s = ''critical''"
  "severity_order s = 1 \<longleftrightarrow> s = ''high''"
  "severity_order s = 2 \<longleftrightarrow> s = ''medium''"
  "severity_order s = 3 \<longleftrightarrow> s \<notin> {''critical'', ''high'', ''medium''}"
  by (simp_all add: severity_order_def)

lemma sort_issues_groups:
  "sort_issues issues =
     filter (\<lambda>x. severity x = ''critical'') issues
     @ filter (\<lambda>x. severity x = ''high'') issues
     @ filter (\<lambda>x. severity x = ''medium'') issues
     @ filter (\<lambda>x. severity x \<notin> {''critical'', ''high'', ''medium''}) issues"
  by (simp only: sort_issues_by_rank by_rank_def rank_severity)

text \<open>
  Claim C8. The sort of the reporter puts the issues in four tiers, critical, high, medium
  and any other severity, each tier in the order the issues had in the list: it is total
  and stable. A run on a readable \<^verbatim>\<open>.compact\<close> file whose check returns issues prints, between
  the header and the summary, one line per issue in that order: every critical issue before
  every high one, every high one before every medium one, any other severity last, and
  issues of equal severity in the order in which the check returned them.
\<close>

theorem severity_sort_stable:
  "sort_issues issues =
     filter (\<lambda>x. severity x = ''critical'') issues
     @ filter (\<lambda>x. severity x = ''high'') issues
     @ filter (\<lambda>x. severity x = ''medium'') issues
     @ filter (\<lambda>x. severity x \<notin> {''critical'', ''high'', ''medium''}) issues
   \<and> (2 \<le> length argv \<and> suffix ''.compact'' (argv ! 1) \<and> read_file (argv ! 1) = Content content
        \<and> check_disclosure_violations content (split_lines content) \<noteq> []
      \<longrightarrow> printed (disclosure_main argv read_file) =
            [FailBanner (argv ! 1), BlankLine, ViolationsHeader]
            @ map (\<lambda>x. IssueLine (line x) (severity_icon (severity x)) (description x))
                (filter (\<lambda>x. severity x = ''critical'')
                   (check_disclosure_violations content (split_lines content))
                 @ filter (\<lambda>x. severity x = ''high'')
                     (check_disclosure_violations content (split_lines content))
                 @ filter (\<lambda>x. severity x = ''medium'')
                     (check_disclosure_violations content (split_lines content))
                 @ filter (\<lambda>x. severity x \<notin> {''critical'', ''high'', ''medium''})
                     (check_disclosure_violations content (split_lines content)))
            @ [BlankLine,
               SummaryLine (length (check_disclosure_violations content (split_lines content)))]
          \<and> exit_code (disclosure_main argv read_file) = 1)"
proof (intro conjI impI)
  show "sort_issues issues =
     filter (\<lambda>x. severity x = ''critical'') issues
     @ filter (\<lambda>x. severity x = ''high'') issues
     @ filter (\<lambda>x. severity x = ''medium'') issues
     @ filter (\<lambda>x. severity x \<notin> {''critical'', ''high'', ''medium''}) issues"
    by (rule sort_issues_groups)
next
  assume h: "2 \<le> length argv \<and> suffix ''.compact'' (argv ! 1) \<and> read_file (argv ! 1) = Content content
        \<and> check_disclosure_violations content (split_lines content) \<noteq> []"
  then have m: "disclosure_main argv read_file =
      report_issues (argv ! 1) (check_disclosure_violations content (split_lines content))"
    by (simp add: disclosure_main_def Let_def)
  show "printed (disclosure_main argv read_file) =
            [FailBanner (argv ! 1), BlankLine, ViolationsHeader]
            @ map (\<lambda>x. IssueLine (line x) (severity_icon (severity x)) (description x))
                (filter (\<lambda>x. severity x = ''critical'')
                   (check_disclosure_violations content (split_lines content))
                 @ filter (\<lambda>x. severity x = ''high'')
                     (check_disclosure_violations content (split_lines content))
                 @ filter (\<lambda>x. severity x = ''medium'')
                     (check_disclosure_violations content (split_lines content))
                 @ filter (\<lambda>x. severity x \<notin> {''critical'', ''high'', ''medium''})
                     (check_disclosure_violations content (split_lines content)))
            @ [BlankLine,
               SummaryLine (length (check_disclosure_violations content (split_lines content)))]"
    unfolding m using h by (simp add: report_issues_def sort_issues_groups)
  show "exit_code (disclosure_main argv read_file) = 1"
    unfolding m using h by (simp add: report_issues_def)
qed

text \<open>The theorem at a file whose check returns one issue of each rule, in the order medium, high, critical, high.\<close>

theorem severity_sort_stable_witness:
  "check_disclosure_violations ''witness getAge(): Uint<8>;\<newline>ledger.set(k, getAge());\<newline>return getAge();\<newline>let h = persistentHash(getAge());\<newline>if get_x() {'' (split_lines ''witness getAge(): Uint<8>;\<newline>ledger.set(k, getAge());\<newline>return getAge();\<newline>let h = persistentHash(getAge());\<newline>if get_x() {'') =
     [r3_issue ''getAge'' ''set'' 2, r2_issue ''getAge'' 3, r1_issue ''getAge'' ''Uint<8>'' 4,
      r4_issue 5]
   \<and> printed (disclosure_main [''check-disclosure.py'', ''token.compact''] (\<lambda>p. Content ''witness getAge(): Uint<8>;\<newline>ledger.set(k, getAge());\<newline>return getAge();\<newline>let h = persistentHash(getAge());\<newline>if get_x() {'')) =
       [FailBanner ''token.compact'', BlankLine, ViolationsHeader,
        IssueLine 4 RedCircle (description (r1_issue ''getAge'' ''Uint<8>'' 4)),
        IssueLine 3 OrangeCircle (description (r2_issue ''getAge'' 3)),
        IssueLine 5 OrangeCircle (description (r4_issue 5)),
        IssueLine 2 YellowCircle (description (r3_issue ''getAge'' ''set'' 2)),
        BlankLine, SummaryLine 4]"
proof -
  have e: "check_disclosure_violations ''witness getAge(): Uint<8>;\<newline>ledger.set(k, getAge());\<newline>return getAge();\<newline>let h = persistentHash(getAge());\<newline>if get_x() {'' (split_lines ''witness getAge(): Uint<8>;\<newline>ledger.set(k, getAge());\<newline>return getAge();\<newline>let h = persistentHash(getAge());\<newline>if get_x() {'') =
     [r3_issue ''getAge'' ''set'' 2, r2_issue ''getAge'' 3, r1_issue ''getAge'' ''Uint<8>'' 4,
      r4_issue 5]"
    by code_simp
  have h: "2 \<le> length [''check-disclosure.py'', ''token.compact''] \<and> suffix ''.compact'' ([''check-disclosure.py'', ''token.compact''] ! 1)
      \<and> (\<lambda>p. Content ''witness getAge(): Uint<8>;\<newline>ledger.set(k, getAge());\<newline>return getAge();\<newline>let h = persistentHash(getAge());\<newline>if get_x() {'') ([''check-disclosure.py'', ''token.compact''] ! 1) = Content ''witness getAge(): Uint<8>;\<newline>ledger.set(k, getAge());\<newline>return getAge();\<newline>let h = persistentHash(getAge());\<newline>if get_x() {''
      \<and> check_disclosure_violations ''witness getAge(): Uint<8>;\<newline>ledger.set(k, getAge());\<newline>return getAge();\<newline>let h = persistentHash(getAge());\<newline>if get_x() {'' (split_lines ''witness getAge(): Uint<8>;\<newline>ledger.set(k, getAge());\<newline>return getAge();\<newline>let h = persistentHash(getAge());\<newline>if get_x() {'') \<noteq> []"
    unfolding e by code_simp
  have a1: "[''check-disclosure.py'', ''token.compact''] ! 1 = ''token.compact''" by simp
  note t = severity_sort_stable [where argv = "[''check-disclosure.py'', ''token.compact'']" and read_file = "\<lambda>p. Content ''witness getAge(): Uint<8>;\<newline>ledger.set(k, getAge());\<newline>return getAge();\<newline>let h = persistentHash(getAge());\<newline>if get_x() {''"
      and content = "''witness getAge(): Uint<8>;\<newline>ledger.set(k, getAge());\<newline>return getAge();\<newline>let h = persistentHash(getAge());\<newline>if get_x() {''" and issues = "[]", THEN conjunct2, THEN mp, OF h, THEN conjunct1]
  have s: "severity (r1_issue w ty n) = ''critical''" "severity (r2_issue w n) = ''high''"
    "severity (r3_issue w op n) = ''medium''" "severity (r4_issue n) = ''high''"
    "line (r1_issue w ty n) = n" "line (r2_issue w n) = n"
    "line (r3_issue w op n) = n" "line (r4_issue n) = n" for w ty op n
    by (simp_all add: r1_issue_def r2_issue_def r3_issue_def r4_issue_def)
  have i: "severity_icon ''critical'' = RedCircle" "severity_icon ''high'' = OrangeCircle"
    "severity_icon ''medium'' = YellowCircle"
    by (simp_all add: severity_icon_def)
  have p: "printed (disclosure_main [''check-disclosure.py'', ''token.compact''] (\<lambda>p. Content ''witness getAge(): Uint<8>;\<newline>ledger.set(k, getAge());\<newline>return getAge();\<newline>let h = persistentHash(getAge());\<newline>if get_x() {'')) =
       [FailBanner ''token.compact'', BlankLine, ViolationsHeader,
        IssueLine 4 RedCircle (description (r1_issue ''getAge'' ''Uint<8>'' 4)),
        IssueLine 3 OrangeCircle (description (r2_issue ''getAge'' 3)),
        IssueLine 5 OrangeCircle (description (r4_issue 5)),
        IssueLine 2 YellowCircle (description (r3_issue ''getAge'' ''set'' 2)),
        BlankLine, SummaryLine 4]"
    using t unfolding e a1 by (simp add: s i)
  show ?thesis
    by (intro conjI) (rule e, rule p)
qed

section \<open>The issues of the check and the lines they come from\<close>

lemma sublist_skip_char:
  assumes "sub \<noteq> []" and "x \<notin> set sub"
  shows "sublist sub (x # t) \<longleftrightarrow> sublist sub t"
proof -
  have "\<not> prefix sub (x # t)"
  proof
    assume "prefix sub (x # t)"
    then obtain ys where "sub = x # ys" using assms(1) by (cases sub) auto
    then show False using assms(2) by simp
  qed
  then show ?thesis by (simp add: sublist_Cons_right)
qed

lemma sublist_dropWhile:
  assumes "sub \<noteq> []" and "\<forall>c \<in> set sub. \<not> P c"
  shows "sublist sub (dropWhile P t) \<longleftrightarrow> sublist sub t"
proof (induction t)
  case Nil
  show ?case by simp
next
  case (Cons x t)
  show ?case
  proof (cases "P x")
    case True
    then have "x \<notin> set sub" using assms(2) by auto
    then show ?thesis using True Cons sublist_skip_char [OF assms(1)] by simp
  next
    case False
    then show ?thesis by simp
  qed
qed

lemma str_in_strip:
  assumes "sub \<noteq> []" and "\<forall>c \<in> set sub. \<not> is_space c"
  shows "str_in sub (strip l) \<longleftrightarrow> str_in sub l"
proof -
  have r: "rev sub \<noteq> []" "\<forall>c \<in> set (rev sub). \<not> is_space c" using assms by simp_all
  have "sublist sub (strip l) \<longleftrightarrow> sublist (rev sub) (dropWhile is_space (rev (dropWhile is_space l)))"
    unfolding strip_def by (metis rev_rev_ident sublist_rev)
  also have "\<dots> \<longleftrightarrow> sublist (rev sub) (rev (dropWhile is_space l))"
    by (rule sublist_dropWhile [OF r])
  also have "\<dots> \<longleftrightarrow> sublist sub (dropWhile is_space l)"
    by (rule sublist_rev)
  also have "\<dots> \<longleftrightarrow> sublist sub l"
    by (rule sublist_dropWhile [OF assms])
  finally show ?thesis by (simp only: str_in_sublist)
qed

lemma disclose_strip: "str_in ''disclose'' (strip l) \<longleftrightarrow> str_in ''disclose'' l"
  by (rule str_in_strip) (simp_all add: is_space_def)

lemma usages_set:
  "set (find_witness_usages content witness_name) =
     {(Suc i, strip (split_lines content ! i)) | i.
        i < length (split_lines content)
        \<and> found (usage_pattern witness_name) (split_lines content ! i)}"
  (is "?L = ?R")
proof (intro set_eqI iffI)
  fix u assume "u \<in> ?L"
  then obtain n l where nl: "(n, l) \<in> set (enumerate 1 (split_lines content))"
      "found (usage_pattern witness_name) l" "u = (n, strip l)"
    by (auto simp: find_witness_usages_def)
  then have "1 \<le> n" "n < length (split_lines content) + 1" "split_lines content ! (n - 1) = l"
    by (simp_all add: in_set_enumerate_eq)
  then have "u = (Suc (n - 1), strip (split_lines content ! (n - 1)))
      \<and> n - 1 < length (split_lines content)
      \<and> found (usage_pattern witness_name) (split_lines content ! (n - 1))"
    using nl by simp
  then show "u \<in> ?R" by blast
next
  fix u assume "u \<in> ?R"
  then obtain i where i: "u = (Suc i, strip (split_lines content ! i))"
      "i < length (split_lines content)"
      "found (usage_pattern witness_name) (split_lines content ! i)"
    by blast
  then have "(Suc i, split_lines content ! i) \<in> set (enumerate 1 (split_lines content))"
    by (simp add: in_set_enumerate_eq)
  then show "u \<in> ?L"
    using i unfolding find_witness_usages_def by force
qed

lemma concat_map_if:
  "concat (map (\<lambda>x. if P x \<and> Q then [f x] else []) xs) = (if Q then map f (filter P xs) else [])"
  by (induction xs) simp_all

lemma ledger_part:
  "concat (map (\<lambda>op.
       if str_in (''.'' @ op @ ''('') lc \<and> str_in wn lc \<and> \<not> str_in ''disclose'' lc
       then [r3_issue wn op ln] else []) ledger_ops)
   = (if str_in wn lc \<and> \<not> str_in ''disclose'' lc
      then map (\<lambda>op. r3_issue wn op ln) (filter (\<lambda>op. str_in (''.'' @ op @ ''('') lc) ledger_ops)
      else [])"
  by (rule concat_map_if)

lemma r3_issue_inj: "r3_issue wn op ln = r3_issue wn op' ln \<Longrightarrow> op = op'"
  by (simp add: r3_issue_def)

lemma word_not_space: "is_word c \<Longrightarrow> \<not> is_space c"
  by (auto simp: is_word_def is_space_def Let_def)

lemma ends_groups:
  assumes "no_wordb r" and "(p', s', g') \<in> set (ends r (p, s, g))"
  shows "\<exists>new. g' = new @ g \<and> (\<forall>e \<in> set new. snd e \<in> group_texts r (fst e))"
  using assms
proof (induction r arbitrary: p s g p' s' g')
  case (RLit l)
  then show ?case by (auto split: if_splits)
next
  case (RChr c)
  then show ?case by (auto split: list.splits if_splits)
next
  case (RStar c)
  then show ?case by auto
next
  case (RPlus c)
  then show ?case by (auto split: list.splits if_splits)
next
  case (ROpt r)
  then show ?case by fastforce
next
  case (RSeq a b)
  from RSeq.prems obtain p1 s1 g1 where
    m1: "(p1, s1, g1) \<in> set (ends a (p, s, g))" and m2: "(p', s', g') \<in> set (ends b (p1, s1, g1))"
    by auto
  from RSeq.IH(1) [OF _ m1] RSeq.prems(1) obtain n1 where
    n1: "g1 = n1 @ g" "\<forall>e \<in> set n1. snd e \<in> group_texts a (fst e)" by auto
  from RSeq.IH(2) [OF _ m2] RSeq.prems(1) obtain n2 where
    n2: "g' = n2 @ g1" "\<forall>e \<in> set n2. snd e \<in> group_texts b (fst e)" by auto
  have "g' = (n2 @ n1) @ g" using n1(1) n2(1) by simp
  moreover have "\<forall>e \<in> set (n2 @ n1). snd e \<in> group_texts (RSeq a b) (fst e)"
    using n1(2) n2(2) by auto
  ultimately show ?case by blast
next
  case RWordB
  then show ?case by simp
next
  case (RGrp k r)
  from RGrp.prems obtain g2 where
    m: "(p', s', g2) \<in> set (ends r (p, s, g))"
    and g': "g' = (k, take (length s - length s') s) # g2"
    by auto
  from RGrp.IH [OF _ m] RGrp.prems(1) obtain n where
    n: "g2 = n @ g" "\<forall>e \<in> set n. snd e \<in> group_texts r (fst e)" by auto
  have "s' \<in> rests (ends r (p, s, g))" using m by (force simp: rests_def)
  then obtain w where w: "w \<in> lang r" "s = w @ s'"
    using ends_rests [of r p s g] RGrp.prems(1) by auto
  then have "take (length s - length s') s = w" by simp
  then have "g' = ((k, w) # n) @ g" using g' n(1) by simp
  moreover have "\<forall>e \<in> set ((k, w) # n). snd e \<in> group_texts (RGrp k r) (fst e)"
    using n(2) w(1) by auto
  ultimately show ?case by blast
qed

lemma search_from_match:
  "search_from r p s = Some m \<Longrightarrow> \<exists>q t. suffix t s \<and> match_at r q t = Some m"
proof (induction s arbitrary: p)
  case Nil
  then have "suffix [] [] \<and> match_at r p [] = Some m" by simp
  then show ?case by (intro exI)
next
  case (Cons x xs)
  show ?case
  proof (cases "match_at r p (x # xs)")
    case None
    then have "search_from r (Some x) xs = Some m" using Cons.prems by simp
    from Cons.IH [OF this] obtain q t where qt: "suffix t xs" "match_at r q t = Some m" by blast
    have "suffix t (x # xs)" using qt(1) by (rule suffix_ConsI)
    then have "suffix t (x # xs) \<and> match_at r q t = Some m" using qt(2) by simp
    then show ?thesis by (intro exI)
  next
    case (Some m')
    then have "match_at r p (x # xs) = Some m" using Cons.prems by simp
    then have "suffix (x # xs) (x # xs) \<and> match_at r p (x # xs) = Some m" by simp
    then show ?thesis by (intro exI)
  qed
qed

lemma match_at_member:
  "match_at r p t = Some m \<Longrightarrow> m \<in> set (ends r (p, t, []))"
  by (cases "ends r (p, t, [])") (auto simp: match_at_def)

lemma witness_name_word:
  assumes "search witness_pattern l = Some m"
  shows "list_all is_word (group m 1)"
proof -
  obtain q t where "match_at witness_pattern q t = Some m"
    using search_from_match assms unfolding search_def by blast
  then have mem: "m \<in> set (ends witness_pattern (q, t, []))" by (rule match_at_member)
  obtain p' s' g' where m: "m = (p', s', g')" by (cases m) auto
  have nw: "no_wordb witness_pattern" by (simp add: witness_pattern_def cat_def)
  from ends_groups [OF nw] mem m obtain new where
    new: "g' = new @ []" "\<forall>e \<in> set new. snd e \<in> group_texts witness_pattern (fst e)" by blast
  have gt: "group_texts witness_pattern 1 = lang (RPlus CWord)"
    by (simp add: witness_pattern_def cat_def)
  show ?thesis
  proof (cases "map_of g' 1")
    case None
    then show ?thesis using m by (simp add: group_def)
  next
    case (Some w)
    then have "(1, w) \<in> set new" using new(1) by (auto dest: map_of_SomeD)
    then have "w \<in> lang (RPlus CWord)" using new(2) gt by force
    then show ?thesis using Some m by (simp add: group_def list_all_iff)
  qed
qed

lemma declared_name_word:
  assumes "(witness_name, decl_line, type_str) \<in> set (find_witness_declarations content)"
  shows "list_all is_word witness_name"
proof -
  obtain l m where "search witness_pattern l = Some m" "witness_name = group m 1"
    using assms unfolding find_witness_declarations_def
    by (auto simp: map_filter_def split: option.splits)
  then show ?thesis using witness_name_word by blast
qed

lemma usage_contains_name:
  assumes "found (usage_pattern witness_name) l"
  shows "sublist witness_name l"
proof -
  obtain m where "search_from (usage_pattern witness_name) None l = Some m"
    using assms by (auto simp: found_def search_def)
  then obtain q t where t: "suffix t l" "match_at (usage_pattern witness_name) q t = Some m"
    using search_from_match by blast
  then have "ends (usage_pattern witness_name) (q, t, []) \<noteq> []"
    by (auto simp: match_at_def split: list.splits)
  then have "prefix witness_name t"
    by (auto simp: usage_pattern_def cat_def split: if_splits)
  then have "sublist witness_name t" by (rule prefix_imp_sublist)
  moreover have "sublist t l" using t(1) by (rule suffix_imp_sublist)
  ultimately show ?thesis by (rule sublist_order.order.trans)
qed

lemma usage_line_has_name:
  assumes "list_all is_word witness_name" and "found (usage_pattern witness_name) l"
  shows "str_in witness_name (strip l)"
proof (cases "witness_name = []")
  case True
  then show ?thesis by (simp add: str_in_sublist del: str_in.simps)
next
  case False
  have "\<forall>c \<in> set witness_name. \<not> is_space c"
    using assms(1) word_not_space by (auto simp: list_all_iff)
  then have "str_in witness_name (strip l) \<longleftrightarrow> str_in witness_name l"
    by (rule str_in_strip [OF False])
  then show ?thesis
    using usage_contains_name [OF assms(2)] by (simp only: str_in_sublist)
qed

lemma sublist_concat_member:
  assumes "x \<in> set xs"
  shows "sublist (f x) (concat (map f xs))"
proof -
  obtain as bs where "xs = as @ x # bs" using assms by (auto dest: split_list)
  then have "concat (map f xs) = concat (map f as) @ f x @ concat (map f bs)" by simp
  then show ?thesis unfolding sublist_def by blast
qed

lemma usage_sublist:
  assumes "(witness_name, decl_line, type_str) \<in> set (find_witness_declarations content)"
    and "k < length (split_lines content)"
    and "found (usage_pattern witness_name) (split_lines content ! k)"
  shows "sublist (usage_issues witness_name type_str (Suc k, strip (split_lines content ! k)))
           (check_disclosure_violations content lines)"
proof -
  let ?u = "(Suc k, strip (split_lines content ! k))"
  let ?F = "\<lambda>(witness_name, decl_line, type_str).
               concat (map (usage_issues witness_name type_str)
                        (find_witness_usages content witness_name))"
  have "?u \<in> set (find_witness_usages content witness_name)"
    unfolding usages_set using assms(2,3) by blast
  then have "sublist (usage_issues witness_name type_str ?u)
      (concat (map (usage_issues witness_name type_str) (find_witness_usages content witness_name)))"
    by (rule sublist_concat_member)
  moreover have "sublist (?F (witness_name, decl_line, type_str))
      (concat (map ?F (find_witness_declarations content)))"
    using assms(1) by (rule sublist_concat_member)
  ultimately have "sublist (usage_issues witness_name type_str ?u)
      (concat (map ?F (find_witness_declarations content)))"
    by (auto intro: sublist_order.order.trans)
  moreover have "sublist (concat (map ?F (find_witness_declarations content)))
      (check_disclosure_violations content lines)"
    unfolding check_disclosure_violations_def by (rule prefix_imp_sublist) simp
  ultimately show ?thesis by (rule sublist_order.order.trans)
qed

lemma issue_origin:
  assumes "x \<in> set (check_disclosure_violations content lines)"
  shows "(\<exists>witness_name decl_line type_str k.
            (witness_name, decl_line, type_str) \<in> set (find_witness_declarations content)
            \<and> k < length (split_lines content)
            \<and> found (usage_pattern witness_name) (split_lines content ! k)
            \<and> x \<in> set (usage_issues witness_name type_str (Suc k, strip (split_lines content ! k))))
         \<or> x \<in> set (control_flow_issues lines)"
proof (cases "x \<in> set (control_flow_issues lines)")
  case True
  then show ?thesis by simp
next
  case False
  then obtain d u where d: "d \<in> set (find_witness_declarations content)"
    and u: "u \<in> set (find_witness_usages content (fst d))"
    and x: "x \<in> set (usage_issues (fst d) (snd (snd d)) u)"
    using assms unfolding check_disclosure_violations_def by (auto split: prod.splits)
  obtain k where k: "u = (Suc k, strip (split_lines content ! k))"
    "k < length (split_lines content)" "found (usage_pattern (fst d)) (split_lines content ! k)"
    using u unfolding usages_set by blast
  have "(fst d, fst (snd d), snd (snd d)) \<in> set (find_witness_declarations content)"
    using d by simp
  then show ?thesis using k x by blast
qed

lemma usage_issues_disclose:
  "str_in ''disclose'' line_content \<Longrightarrow>
     usage_issues witness_name type_str (line_num, line_content) =
       (if str_in ''persistentHash'' line_content \<and> is_low_entropy_type type_str
        then [r1_issue witness_name type_str line_num] else [])"
  unfolding usage_issues_def ledger_part by simp

lemma usage_issues_line:
  "x \<in> set (usage_issues witness_name type_str (line_num, line_content)) \<Longrightarrow> line x = line_num"
  unfolding usage_issues_def ledger_part
  by (auto simp: r1_issue_def r2_issue_def r3_issue_def split: if_splits)

lemma control_flow_issue_form:
  "x \<in> set (control_flow_issues lines) \<Longrightarrow> x = r4_issue (line x)"
  by (auto simp: control_flow_issues_def r4_issue_def)

lemma hash_strip: "str_in ''persistentHash'' (strip l) \<longleftrightarrow> str_in ''persistentHash'' l"
  by (rule str_in_strip) (simp_all add: is_space_def)

section \<open>Usage lines that mention disclosure, and ledger operations\<close>

lemma op_strip:
  assumes "op \<in> set ledger_ops"
  shows "str_in (''.'' @ op @ ''('') (strip l) \<longleftrightarrow> str_in (''.'' @ op @ ''('') l"
proof (rule str_in_strip)
  show "''.'' @ op @ ''('' \<noteq> []" by simp
  show "\<forall>c \<in> set (''.'' @ op @ ''(''). \<not> is_space c"
    using assms by (auto simp: ledger_ops_def is_space_def)
qed

lemma usage_issues_medium:
  assumes "list_all is_word witness_name" and "found (usage_pattern witness_name) l"
  shows "filter (\<lambda>x. severity x = ''medium'') (usage_issues witness_name type_str (n, strip l))
       = (if str_in ''disclose'' l then []
          else map (\<lambda>op. r3_issue witness_name op n)
                 (filter (\<lambda>op. str_in (''.'' @ op @ ''('') l) ledger_ops))"
proof -
  have name: "str_in witness_name (strip l)"
    by (rule usage_line_has_name [OF assms])
  have m: "filter (\<lambda>x. severity x = ''medium'') (map (\<lambda>op. r3_issue witness_name op n) ops)
      = map (\<lambda>op. r3_issue witness_name op n) ops" for ops
    by (induction ops) (simp_all add: r3_issue_def)
  have f: "filter (\<lambda>op. str_in (''.'' @ op @ ''('') (strip l)) ledger_ops
      = filter (\<lambda>op. str_in (''.'' @ op @ ''('') l) ledger_ops"
    by (rule filter_cong) (simp_all only: op_strip)
  show ?thesis
    unfolding usage_issues_def ledger_part prod.case f disclose_strip
    using name by (simp add: m r1_issue_def r2_issue_def del: str_in.simps)
qed

lemma r3_distinct:
  "distinct (map (\<lambda>op. r3_issue witness_name op n)
     (filter (\<lambda>op. str_in (''.'' @ op @ ''('') l) ledger_ops))"
proof -
  have "distinct ledger_ops" by (simp add: ledger_ops_def)
  then have "distinct (filter (\<lambda>op. str_in (''.'' @ op @ ''('') l) ledger_ops)"
    by (rule distinct_filter)
  then show ?thesis
    by (simp add: distinct_map inj_on_def del: str_in.simps) (metis r3_issue_inj)
qed

text \<open>
  Claim C9. Take a line of the file whose text contains \<^verbatim>\<open>disclose\<close> anywhere, as a word or
  inside a longer identifier. Every issue the check returns for that line is a rule-R1 issue
  or the rule-R4 issue: there is no rule-R2 issue and no rule-R3 issue on it, for any
  witness and any ledger operation. The suppression does not reach R1 or R4: for a declared
  witness used on the line, the issues of that usage are in the output of the check, they
  are the R1 issue when the line contains \<^verbatim>\<open>persistentHash\<close> and the type is low-entropy and
  nothing otherwise, and the R4 issue of the line is in the output whenever the line matches
  the control-flow pattern.
\<close>

theorem disclose_suppresses_return_and_ledger:
  "k < length (split_lines content) \<and> str_in ''disclose'' (split_lines content ! k) \<longrightarrow>
     (\<forall>x \<in> set (check_disclosure_violations content (split_lines content)).
         line x = Suc k \<longrightarrow> (\<exists>w t. x = r1_issue w t (Suc k)) \<or> x = r4_issue (Suc k))
     \<and> (\<forall>w. r2_issue w (Suc k) \<notin> set (check_disclosure_violations content (split_lines content)))
     \<and> (\<forall>w op. r3_issue w op (Suc k)
            \<notin> set (check_disclosure_violations content (split_lines content)))
     \<and> ((witness_name, decl_line, type_str) \<in> set (find_witness_declarations content)
          \<and> found (usage_pattern witness_name) (split_lines content ! k) \<longrightarrow>
            usage_issues witness_name type_str (Suc k, strip (split_lines content ! k)) =
              (if str_in ''persistentHash'' (split_lines content ! k)
                  \<and> is_low_entropy_type type_str
               then [r1_issue witness_name type_str (Suc k)] else [])
            \<and> sublist (usage_issues witness_name type_str (Suc k, strip (split_lines content ! k)))
                (check_disclosure_violations content (split_lines content))
            \<and> (str_in ''persistentHash'' (split_lines content ! k) \<and> is_low_entropy_type type_str
                 \<longrightarrow> r1_issue witness_name type_str (Suc k)
                       \<in> set (check_disclosure_violations content (split_lines content))))
     \<and> (found control_flow_pattern (split_lines content ! k)
          \<longrightarrow> r4_issue (Suc k) \<in> set (check_disclosure_violations content (split_lines content)))"
proof (intro impI, elim conjE)
  let ?lines = "split_lines content"
  let ?out = "check_disclosure_violations content ?lines"
  assume k: "k < length ?lines" and d: "str_in ''disclose'' (?lines ! k)"
  have ds: "str_in ''disclose'' (strip (?lines ! j)) \<longleftrightarrow> str_in ''disclose'' (?lines ! j)" for j
    by (rule disclose_strip)
  have first: "\<forall>x \<in> set ?out. line x = Suc k \<longrightarrow> (\<exists>w t. x = r1_issue w t (Suc k)) \<or> x = r4_issue (Suc k)"
  proof (intro ballI impI)
    fix x assume x: "x \<in> set ?out" and l: "line x = Suc k"
    from issue_origin [OF x] show "(\<exists>w t. x = r1_issue w t (Suc k)) \<or> x = r4_issue (Suc k)"
    proof (elim disjE exE conjE)
      fix w dl t j
      assume u: "x \<in> set (usage_issues w t (Suc j, strip (?lines ! j)))"
      have "line x = Suc j" by (rule usage_issues_line [OF u])
      then have j: "j = k" using l by simp
      have "str_in ''disclose'' (strip (?lines ! k))" using d ds by simp
      from usage_issues_disclose [OF this] u j have "x = r1_issue w t (Suc k)"
        by (auto split: if_splits)
      then show ?thesis by blast
    next
      assume "x \<in> set (control_flow_issues ?lines)"
      then have "x = r4_issue (line x)" by (rule control_flow_issue_form)
      then show ?thesis using l by simp
    qed
  qed
  have second: "usage_issues witness_name type_str (Suc k, strip (?lines ! k)) =
              (if str_in ''persistentHash'' (?lines ! k) \<and> is_low_entropy_type type_str
               then [r1_issue witness_name type_str (Suc k)] else [])
            \<and> sublist (usage_issues witness_name type_str (Suc k, strip (?lines ! k))) ?out
            \<and> (str_in ''persistentHash'' (?lines ! k) \<and> is_low_entropy_type type_str
                 \<longrightarrow> r1_issue witness_name type_str (Suc k) \<in> set ?out)"
    if w: "(witness_name, decl_line, type_str) \<in> set (find_witness_declarations content)"
      and f: "found (usage_pattern witness_name) (?lines ! k)"
  proof -
    have "str_in ''disclose'' (strip (?lines ! k))" using d ds by simp
    from usage_issues_disclose [OF this]
    have e: "usage_issues witness_name type_str (Suc k, strip (?lines ! k)) =
              (if str_in ''persistentHash'' (?lines ! k) \<and> is_low_entropy_type type_str
               then [r1_issue witness_name type_str (Suc k)] else [])"
      unfolding hash_strip .
    have s: "sublist (usage_issues witness_name type_str (Suc k, strip (?lines ! k))) ?out"
      by (rule usage_sublist [OF w k f])
    have "r1_issue witness_name type_str (Suc k) \<in> set ?out"
      if "str_in ''persistentHash'' (?lines ! k) \<and> is_low_entropy_type type_str"
      using set_mono_sublist [OF s] e that by auto
    then show ?thesis using e s by blast
  qed
  have third: "r4_issue (Suc k) \<in> set ?out" if "found control_flow_pattern (?lines ! k)"
    using control_flow_issue_member [OF k that] by (simp add: check_disclosure_violations_def)
  have no_r2: "r2_issue w (Suc k) \<notin> set ?out" for w
  proof
    assume "r2_issue w (Suc k) \<in> set ?out"
    with first have "(\<exists>w' t. r2_issue w (Suc k) = r1_issue w' t (Suc k))
        \<or> r2_issue w (Suc k) = r4_issue (Suc k)"
      by (simp add: r2_issue_def)
    then show False by (simp add: r1_issue_def r2_issue_def r4_issue_def)
  qed
  have no_r3: "r3_issue w op (Suc k) \<notin> set ?out" for w op
  proof
    assume "r3_issue w op (Suc k) \<in> set ?out"
    with first have "(\<exists>w' t. r3_issue w op (Suc k) = r1_issue w' t (Suc k))
        \<or> r3_issue w op (Suc k) = r4_issue (Suc k)"
      by (simp add: r3_issue_def)
    then show False by (simp add: r1_issue_def r3_issue_def r4_issue_def)
  qed
  show "(\<forall>x \<in> set ?out. line x = Suc k \<longrightarrow> (\<exists>w t. x = r1_issue w t (Suc k)) \<or> x = r4_issue (Suc k))
     \<and> (\<forall>w. r2_issue w (Suc k) \<notin> set ?out)
     \<and> (\<forall>w op. r3_issue w op (Suc k) \<notin> set ?out)
     \<and> ((witness_name, decl_line, type_str) \<in> set (find_witness_declarations content)
          \<and> found (usage_pattern witness_name) (?lines ! k) \<longrightarrow>
            usage_issues witness_name type_str (Suc k, strip (?lines ! k)) =
              (if str_in ''persistentHash'' (?lines ! k) \<and> is_low_entropy_type type_str
               then [r1_issue witness_name type_str (Suc k)] else [])
            \<and> sublist (usage_issues witness_name type_str (Suc k, strip (?lines ! k))) ?out
            \<and> (str_in ''persistentHash'' (?lines ! k) \<and> is_low_entropy_type type_str
                 \<longrightarrow> r1_issue witness_name type_str (Suc k) \<in> set ?out))
     \<and> (found control_flow_pattern (?lines ! k) \<longrightarrow> r4_issue (Suc k) \<in> set ?out)"
    using first second third no_r2 no_r3 by blast
qed

text \<open>
  The theorem at a usage line that has \<^verbatim>\<open>return\<close>, a ledger call, \<^verbatim>\<open>persistentHash\<close>, a
  conditional on a \<^verbatim>\<open>get_\<close> call and the identifier \<^verbatim>\<open>undisclosed\<close>.
\<close>

theorem disclose_suppresses_return_and_ledger_witness:
  "(1 < length (split_lines ''witness getAge(): Uint<8>;\<newline>if get_x() { return ledger.set(k, persistentHash(getAge())); } // undisclosed'') \<and> str_in ''disclose'' (split_lines ''witness getAge(): Uint<8>;\<newline>if get_x() { return ledger.set(k, persistentHash(getAge())); } // undisclosed'' ! 1))
   \<and> ((''getAge'', 1, ''Uint<8>'') \<in> set (find_witness_declarations ''witness getAge(): Uint<8>;\<newline>if get_x() { return ledger.set(k, persistentHash(getAge())); } // undisclosed'')
        \<and> found (usage_pattern ''getAge'') (split_lines ''witness getAge(): Uint<8>;\<newline>if get_x() { return ledger.set(k, persistentHash(getAge())); } // undisclosed'' ! 1))
   \<and> (str_in ''persistentHash'' (split_lines ''witness getAge(): Uint<8>;\<newline>if get_x() { return ledger.set(k, persistentHash(getAge())); } // undisclosed'' ! 1) \<and> is_low_entropy_type ''Uint<8>'')
   \<and> found control_flow_pattern (split_lines ''witness getAge(): Uint<8>;\<newline>if get_x() { return ledger.set(k, persistentHash(getAge())); } // undisclosed'' ! 1)
   \<and> str_in ''return'' (split_lines ''witness getAge(): Uint<8>;\<newline>if get_x() { return ledger.set(k, persistentHash(getAge())); } // undisclosed'' ! 1)
   \<and> str_in ''.set('' (split_lines ''witness getAge(): Uint<8>;\<newline>if get_x() { return ledger.set(k, persistentHash(getAge())); } // undisclosed'' ! 1)
   \<and> r1_issue ''getAge'' ''Uint<8>'' (Suc 1) \<in> set (check_disclosure_violations ''witness getAge(): Uint<8>;\<newline>if get_x() { return ledger.set(k, persistentHash(getAge())); } // undisclosed'' (split_lines ''witness getAge(): Uint<8>;\<newline>if get_x() { return ledger.set(k, persistentHash(getAge())); } // undisclosed''))
   \<and> r4_issue (Suc 1) \<in> set (check_disclosure_violations ''witness getAge(): Uint<8>;\<newline>if get_x() { return ledger.set(k, persistentHash(getAge())); } // undisclosed'' (split_lines ''witness getAge(): Uint<8>;\<newline>if get_x() { return ledger.set(k, persistentHash(getAge())); } // undisclosed''))
   \<and> r2_issue ''getAge'' (Suc 1) \<notin> set (check_disclosure_violations ''witness getAge(): Uint<8>;\<newline>if get_x() { return ledger.set(k, persistentHash(getAge())); } // undisclosed'' (split_lines ''witness getAge(): Uint<8>;\<newline>if get_x() { return ledger.set(k, persistentHash(getAge())); } // undisclosed''))
   \<and> r3_issue ''getAge'' ''set'' (Suc 1) \<notin> set (check_disclosure_violations ''witness getAge(): Uint<8>;\<newline>if get_x() { return ledger.set(k, persistentHash(getAge())); } // undisclosed'' (split_lines ''witness getAge(): Uint<8>;\<newline>if get_x() { return ledger.set(k, persistentHash(getAge())); } // undisclosed''))"
proof -
  have h: "1 < length (split_lines ''witness getAge(): Uint<8>;\<newline>if get_x() { return ledger.set(k, persistentHash(getAge())); } // undisclosed'') \<and> str_in ''disclose'' (split_lines ''witness getAge(): Uint<8>;\<newline>if get_x() { return ledger.set(k, persistentHash(getAge())); } // undisclosed'' ! 1)"
    by code_simp
  have u: "(''getAge'', 1, ''Uint<8>'') \<in> set (find_witness_declarations ''witness getAge(): Uint<8>;\<newline>if get_x() { return ledger.set(k, persistentHash(getAge())); } // undisclosed'')
        \<and> found (usage_pattern ''getAge'') (split_lines ''witness getAge(): Uint<8>;\<newline>if get_x() { return ledger.set(k, persistentHash(getAge())); } // undisclosed'' ! 1)"
    by code_simp
  have e: "str_in ''persistentHash'' (split_lines ''witness getAge(): Uint<8>;\<newline>if get_x() { return ledger.set(k, persistentHash(getAge())); } // undisclosed'' ! 1) \<and> is_low_entropy_type ''Uint<8>''"
    by code_simp
  have c: "found control_flow_pattern (split_lines ''witness getAge(): Uint<8>;\<newline>if get_x() { return ledger.set(k, persistentHash(getAge())); } // undisclosed'' ! 1)"
    by code_simp
  have r: "str_in ''return'' (split_lines ''witness getAge(): Uint<8>;\<newline>if get_x() { return ledger.set(k, persistentHash(getAge())); } // undisclosed'' ! 1)"
    by code_simp
  have s: "str_in ''.set('' (split_lines ''witness getAge(): Uint<8>;\<newline>if get_x() { return ledger.set(k, persistentHash(getAge())); } // undisclosed'' ! 1)"
    by code_simp
  note t = disclose_suppresses_return_and_ledger [where content = "''witness getAge(): Uint<8>;\<newline>if get_x() { return ledger.set(k, persistentHash(getAge())); } // undisclosed''" and k = 1
      and witness_name = "''getAge''" and decl_line = 1 and type_str = "''Uint<8>''",
      THEN mp, OF h]
  note t2 = t [THEN conjunct2]
  note t3 = t2 [THEN conjunct2]
  note t4 = t3 [THEN conjunct2]
  have r1: "r1_issue ''getAge'' ''Uint<8>'' (Suc 1) \<in> set (check_disclosure_violations ''witness getAge(): Uint<8>;\<newline>if get_x() { return ledger.set(k, persistentHash(getAge())); } // undisclosed'' (split_lines ''witness getAge(): Uint<8>;\<newline>if get_x() { return ledger.set(k, persistentHash(getAge())); } // undisclosed''))"
    by (rule t4 [THEN conjunct1, THEN mp, OF u, THEN conjunct2, THEN conjunct2, THEN mp, OF e])
  have r4: "r4_issue (Suc 1) \<in> set (check_disclosure_violations ''witness getAge(): Uint<8>;\<newline>if get_x() { return ledger.set(k, persistentHash(getAge())); } // undisclosed'' (split_lines ''witness getAge(): Uint<8>;\<newline>if get_x() { return ledger.set(k, persistentHash(getAge())); } // undisclosed''))"
    by (rule t4 [THEN conjunct2, THEN mp, OF c])
  have r2: "r2_issue ''getAge'' (Suc 1) \<notin> set (check_disclosure_violations ''witness getAge(): Uint<8>;\<newline>if get_x() { return ledger.set(k, persistentHash(getAge())); } // undisclosed'' (split_lines ''witness getAge(): Uint<8>;\<newline>if get_x() { return ledger.set(k, persistentHash(getAge())); } // undisclosed''))"
    by (rule t2 [THEN conjunct1, THEN spec])
  have r3: "r3_issue ''getAge'' ''set'' (Suc 1) \<notin> set (check_disclosure_violations ''witness getAge(): Uint<8>;\<newline>if get_x() { return ledger.set(k, persistentHash(getAge())); } // undisclosed'' (split_lines ''witness getAge(): Uint<8>;\<newline>if get_x() { return ledger.set(k, persistentHash(getAge())); } // undisclosed''))"
    by (rule t3 [THEN conjunct1, THEN spec, THEN spec])
  show ?thesis
    by (intro conjI) (rule h [THEN conjunct1], rule h [THEN conjunct2], rule u [THEN conjunct1],
      rule u [THEN conjunct2], rule e [THEN conjunct1], rule e [THEN conjunct2], rule c, rule r,
      rule s, rule r1, rule r4, rule r2, rule r3)
qed


text \<open>
  Claim C10, as amended. The claim speaks of every usage line; on a usage line that contains
  \<^verbatim>\<open>disclose\<close> rule R3 emits nothing, whatever ledger calls the line has. What holds for a
  declared witness and a usage line of it: the issues of that usage stand together in the
  output of the check; the medium ones among them are, when the line does not contain
  \<^verbatim>\<open>disclose\<close>, one issue per ledger-operation name whose call pattern \<^verbatim>\<open>.<op>(\<close> is on the
  line, in the order of the list of operations, and none when it does; these issues are
  pairwise different, so two operations on one line give two issues; and each of them is in
  the output of the check.
\<close>

theorem ledger_ops_one_issue_each:
  "(witness_name, decl_line, type_str) \<in> set (find_witness_declarations content)
   \<and> k < length (split_lines content)
   \<and> found (usage_pattern witness_name) (split_lines content ! k) \<longrightarrow>
     sublist (usage_issues witness_name type_str (Suc k, strip (split_lines content ! k)))
       (check_disclosure_violations content (split_lines content))
     \<and> filter (\<lambda>x. severity x = ''medium'')
          (usage_issues witness_name type_str (Suc k, strip (split_lines content ! k)))
        = (if str_in ''disclose'' (split_lines content ! k) then []
           else map (\<lambda>op. r3_issue witness_name op (Suc k))
                  (filter (\<lambda>op. str_in (''.'' @ op @ ''('') (split_lines content ! k)) ledger_ops))
     \<and> distinct (map (\<lambda>op. r3_issue witness_name op (Suc k))
                  (filter (\<lambda>op. str_in (''.'' @ op @ ''('') (split_lines content ! k)) ledger_ops))
     \<and> (\<not> str_in ''disclose'' (split_lines content ! k) \<longrightarrow>
          (\<forall>op \<in> set ledger_ops. str_in (''.'' @ op @ ''('') (split_lines content ! k) \<longrightarrow>
              r3_issue witness_name op (Suc k)
                \<in> set (check_disclosure_violations content (split_lines content))))"
proof (intro impI, elim conjE)
  let ?l = "split_lines content ! k"
  let ?out = "check_disclosure_violations content (split_lines content)"
  let ?u = "usage_issues witness_name type_str (Suc k, strip ?l)"
  assume w: "(witness_name, decl_line, type_str) \<in> set (find_witness_declarations content)"
    and k: "k < length (split_lines content)"
    and f: "found (usage_pattern witness_name) ?l"
  have s: "sublist ?u ?out" by (rule usage_sublist [OF w k f])
  have m: "filter (\<lambda>x. severity x = ''medium'') ?u
        = (if str_in ''disclose'' ?l then []
           else map (\<lambda>op. r3_issue witness_name op (Suc k))
                  (filter (\<lambda>op. str_in (''.'' @ op @ ''('') ?l) ledger_ops))"
    by (rule usage_issues_medium [OF declared_name_word [OF w] f])
  have dd: "distinct (map (\<lambda>op. r3_issue witness_name op (Suc k))
                  (filter (\<lambda>op. str_in (''.'' @ op @ ''('') ?l) ledger_ops))"
    by (rule r3_distinct)
  have mem: "r3_issue witness_name op (Suc k) \<in> set ?out"
    if nd: "\<not> str_in ''disclose'' ?l" and op: "op \<in> set ledger_ops"
      and c: "str_in (''.'' @ op @ ''('') ?l" for op
  proof -
    have "r3_issue witness_name op (Suc k)
        \<in> set (map (\<lambda>op. r3_issue witness_name op (Suc k))
                 (filter (\<lambda>op. str_in (''.'' @ op @ ''('') ?l) ledger_ops))"
      using op c by (simp del: str_in.simps)
    then have "r3_issue witness_name op (Suc k) \<in> set (filter (\<lambda>x. severity x = ''medium'') ?u)"
      using m nd by (simp del: str_in.simps)
    then have "r3_issue witness_name op (Suc k) \<in> set ?u" by simp
    then show ?thesis using set_mono_sublist [OF s] by blast
  qed
  show "sublist ?u ?out
     \<and> filter (\<lambda>x. severity x = ''medium'') ?u
        = (if str_in ''disclose'' ?l then []
           else map (\<lambda>op. r3_issue witness_name op (Suc k))
                  (filter (\<lambda>op. str_in (''.'' @ op @ ''('') ?l) ledger_ops))
     \<and> distinct (map (\<lambda>op. r3_issue witness_name op (Suc k))
                  (filter (\<lambda>op. str_in (''.'' @ op @ ''('') ?l) ledger_ops))
     \<and> (\<not> str_in ''disclose'' ?l \<longrightarrow>
          (\<forall>op \<in> set ledger_ops. str_in (''.'' @ op @ ''('') ?l \<longrightarrow>
              r3_issue witness_name op (Suc k) \<in> set ?out))"
    using s m dd mem by blast
qed


text \<open>The theorem at a line that calls \<^verbatim>\<open>.set(\<close> and \<^verbatim>\<open>.push(\<close> with the witness.\<close>

theorem ledger_ops_one_issue_each_witness:
  "((''getAge'', 1, ''Uint<8>'') \<in> set (find_witness_declarations ''witness getAge(): Uint<8>;\<newline>ledger.set(k, getAge()); items.push(getAge());'')
     \<and> 1 < length (split_lines ''witness getAge(): Uint<8>;\<newline>ledger.set(k, getAge()); items.push(getAge());'')
     \<and> found (usage_pattern ''getAge'') (split_lines ''witness getAge(): Uint<8>;\<newline>ledger.set(k, getAge()); items.push(getAge());'' ! 1))
   \<and> filter (\<lambda>x. severity x = ''medium'')
        (usage_issues ''getAge'' ''Uint<8>'' (Suc 1, strip (split_lines ''witness getAge(): Uint<8>;\<newline>ledger.set(k, getAge()); items.push(getAge());'' ! 1)))
      = [r3_issue ''getAge'' ''push'' (Suc 1), r3_issue ''getAge'' ''set'' (Suc 1)]
   \<and> sublist [r3_issue ''getAge'' ''push'' (Suc 1), r3_issue ''getAge'' ''set'' (Suc 1)]
        (check_disclosure_violations ''witness getAge(): Uint<8>;\<newline>ledger.set(k, getAge()); items.push(getAge());'' (split_lines ''witness getAge(): Uint<8>;\<newline>ledger.set(k, getAge()); items.push(getAge());''))
   \<and> r3_issue ''getAge'' ''push'' (Suc 1) \<noteq> r3_issue ''getAge'' ''set'' (Suc 1)"
proof -
  have h: "(''getAge'', 1, ''Uint<8>'') \<in> set (find_witness_declarations ''witness getAge(): Uint<8>;\<newline>ledger.set(k, getAge()); items.push(getAge());'')
     \<and> 1 < length (split_lines ''witness getAge(): Uint<8>;\<newline>ledger.set(k, getAge()); items.push(getAge());'')
     \<and> found (usage_pattern ''getAge'') (split_lines ''witness getAge(): Uint<8>;\<newline>ledger.set(k, getAge()); items.push(getAge());'' ! 1)"
    by code_simp
  have d: "str_in ''disclose'' (split_lines ''witness getAge(): Uint<8>;\<newline>ledger.set(k, getAge()); items.push(getAge());'' ! 1) = False"
    by code_simp
  have f: "filter (\<lambda>op. str_in (''.'' @ op @ ''('') (split_lines ''witness getAge(): Uint<8>;\<newline>ledger.set(k, getAge()); items.push(getAge());'' ! 1)) ledger_ops
      = [''push'', ''set'']"
    by code_simp
  have u: "usage_issues ''getAge'' ''Uint<8>'' (Suc 1, strip (split_lines ''witness getAge(): Uint<8>;\<newline>ledger.set(k, getAge()); items.push(getAge());'' ! 1))
      = filter (\<lambda>x. severity x = ''medium'')
          (usage_issues ''getAge'' ''Uint<8>'' (Suc 1, strip (split_lines ''witness getAge(): Uint<8>;\<newline>ledger.set(k, getAge()); items.push(getAge());'' ! 1)))"
    by code_simp
  note t = ledger_ops_one_issue_each [where content = "''witness getAge(): Uint<8>;\<newline>ledger.set(k, getAge()); items.push(getAge());''" and k = 1
      and witness_name = "''getAge''" and decl_line = 1 and type_str = "''Uint<8>''",
      THEN mp, OF h]
  have m: "filter (\<lambda>x. severity x = ''medium'')
        (usage_issues ''getAge'' ''Uint<8>'' (Suc 1, strip (split_lines ''witness getAge(): Uint<8>;\<newline>ledger.set(k, getAge()); items.push(getAge());'' ! 1)))
      = [r3_issue ''getAge'' ''push'' (Suc 1), r3_issue ''getAge'' ''set'' (Suc 1)]"
    using t [THEN conjunct2, THEN conjunct1] unfolding d f by simp
  have s: "sublist [r3_issue ''getAge'' ''push'' (Suc 1), r3_issue ''getAge'' ''set'' (Suc 1)]
        (check_disclosure_violations ''witness getAge(): Uint<8>;\<newline>ledger.set(k, getAge()); items.push(getAge());'' (split_lines ''witness getAge(): Uint<8>;\<newline>ledger.set(k, getAge()); items.push(getAge());''))"
    using t [THEN conjunct1] unfolding u [symmetric] m [symmetric] .
  have n: "r3_issue ''getAge'' ''push'' (Suc 1) \<noteq> r3_issue ''getAge'' ''set'' (Suc 1)"
    using t [THEN conjunct2, THEN conjunct2, THEN conjunct1] unfolding f by simp
  show ?thesis
    by (intro conjI) (rule h [THEN conjunct1], rule h [THEN conjunct2, THEN conjunct1],
      rule h [THEN conjunct2, THEN conjunct2], rule m, rule s, rule n)
qed

text \<open>
  The claim as stated fails on the usage line \<^verbatim>\<open>ledger.set(k, disclose(getAge()));\<close>: the call
  pattern \<^verbatim>\<open>.set(\<close> is on the line and the check returns no issue.
\<close>

theorem ledger_op_disclose_counterexample:
  "(''getAge'', 1, ''Uint<8>'') \<in> set (find_witness_declarations ''witness getAge(): Uint<8>;\<newline>ledger.set(k, disclose(getAge()));'')
   \<and> find_witness_usages ''witness getAge(): Uint<8>;\<newline>ledger.set(k, disclose(getAge()));'' ''getAge''
       = [(1, ''witness getAge(): Uint<8>;''), (2, ''ledger.set(k, disclose(getAge()));'')]
   \<and> str_in ''.set('' ''ledger.set(k, disclose(getAge()));''
   \<and> check_disclosure_violations ''witness getAge(): Uint<8>;\<newline>ledger.set(k, disclose(getAge()));'' (split_lines ''witness getAge(): Uint<8>;\<newline>ledger.set(k, disclose(getAge()));'') = []"
  by code_simp

end
